theory Spec2Isabelle
  imports Main "HOL-Library.Sublist"
begin

section \<open>The check-youtube-status edge function\<close>

text \<open>
  A shallow embedding of the edge function \<^verbatim>\<open>check-youtube-status\<close>: the request
  handler, the status resolver with its cache, the channel scraper and its paginator.
  Every network call is an oracle of the environment record \<open>env\<close>; a JavaScript
  exception is a value. Strings are byte strings, timestamps are milliseconds since
  the epoch (an \<open>int\<close>), and \<^verbatim>\<open>undefined\<close> and \<^verbatim>\<open>null\<close> are both \<open>None\<close>.
\<close>

subsection \<open>JavaScript strings\<close>

definition startsWith :: "string \<Rightarrow> string \<Rightarrow> bool" where
  "startsWith s p = (take (length p) s = p)"

text \<open>\<^verbatim>\<open>s.includes(sub)\<close>: \<open>sub\<close> occurs somewhere in \<open>s\<close>.\<close>

fun includesStr :: "string \<Rightarrow> string \<Rightarrow> bool" where
  "includesStr [] sub = (sub = [])"
| "includesStr (c # cs) sub = (startsWith (c # cs) sub \<or> includesStr cs sub)"

text \<open>\<^verbatim>\<open>s.replace(pat, rep)\<close> with a string pattern: the first occurrence only.\<close>

fun replaceFirst :: "string \<Rightarrow> string \<Rightarrow> string \<Rightarrow> string" where
  "replaceFirst [] pat rep = (if pat = [] then rep else [])"
| "replaceFirst (c # cs) pat rep =
     (if startsWith (c # cs) pat then rep @ drop (length pat) (c # cs)
      else c # replaceFirst cs pat rep)"

text \<open>
  \<^verbatim>\<open>toLowerCase\<close> and \<^verbatim>\<open>toLocaleLowerCase\<close> on the ASCII letters; no other
  character lower-cases to an ASCII letter in the runtime's locale.
\<close>

definition toLowerChar :: "char \<Rightarrow> char" where
  "toLowerChar c =
     (if c \<in> set ''ABCDEFGHIJKLMNOPQRSTUVWXYZ''
      then char_of (of_char c + (32 :: nat)) else c)"

definition toLowerCase :: "string \<Rightarrow> string" where
  "toLowerCase s = map toLowerChar s"

text \<open>\<^verbatim>\<open>x || d\<close> on an optional string: the empty string is falsy too.\<close>

definition orElse :: "string option \<Rightarrow> string \<Rightarrow> string" where
  "orElse x d = (case x of None \<Rightarrow> d | Some s \<Rightarrow> if s = [] then d else s)"

subsection \<open>JavaScript sets and maps\<close>

text \<open>
  A \<^verbatim>\<open>Set\<close> iterates in insertion order and ignores a second \<^verbatim>\<open>add\<close> of the
  same element: a list without duplicates. \<open>jsSet xs\<close> is \<^verbatim>\<open>new Set(xs)\<close>, and
  also \<^verbatim>\<open>Array.from\<close> of it.
\<close>

definition setAdd :: "'a list \<Rightarrow> 'a \<Rightarrow> 'a list" where
  "setAdd s x = (if x \<in> set s then s else s @ [x])"

definition addAll :: "'a list \<Rightarrow> 'a list \<Rightarrow> 'a list" where
  "addAll s xs = foldl setAdd s xs"

definition jsSet :: "'a list \<Rightarrow> 'a list" where
  "jsSet xs = addAll [] xs"

text \<open>\<^verbatim>\<open>new Map(entries)\<close>: a later entry overwrites an earlier one with its key.\<close>

definition jsMap :: "('k \<times> 'v) list \<Rightarrow> ('k \<rightharpoonup> 'v)" where
  "jsMap kvs = foldl (\<lambda>m kv. m(fst kv \<mapsto> snd kv)) Map.empty kvs"

subsection \<open>Data model\<close>

datatype content_type = Video | Short

text \<open>
  A result object without its \<^verbatim>\<open>fromCache\<close> field is what the cache stores
  (\<^verbatim>\<open>dataToCache\<close>); the result itself extends it by \<^verbatim>\<open>fromCache\<close>.
  The field \<^verbatim>\<open>id\<close> is \<open>id'\<close> here.
\<close>

record video_data =
  id' :: string
  title :: string
  status :: string
  thumbnail :: "string option"
  publishedAt :: "string option"
  contentType :: content_type
  duration :: "string option"

record video_record = video_data +
  fromCache :: bool

text \<open>A row of the table \<^verbatim>\<open>video_cache\<close>, keyed by \<^verbatim>\<open>video_id\<close>.\<close>

record cache_row =
  data :: video_data
  cached_at :: int

type_synonym cache = "string \<rightharpoonup> cache_row"

text \<open>An element of \<^verbatim>\<open>data.items\<close> in the answer of the videos endpoint.\<close>

record api_item =
  item_id :: string
  snippet_title :: "string option"
  snippet_publishedAt :: "string option"
  thumbnails_default_url :: "string option"
  status_privacyStatus :: "string option"
  contentDetails_duration :: "string option"

subsection \<open>The environment\<close>

text \<open>
  \<open>FetchThrew\<close>: \<^verbatim>\<open>fetch\<close> (or reading the body) rejected. Otherwise the
  response with its \<^verbatim>\<open>ok\<close> flag and its body.
\<close>

datatype http_response = FetchThrew | Response bool string

text \<open>
  The answer of one batch call to the videos endpoint: the call or its JSON decoding
  rejected, or \<^verbatim>\<open>response.ok\<close> and \<^verbatim>\<open>data.items\<close> (which may be absent).
\<close>

datatype api_response = ApiThrew | ApiResponse bool "api_item list option"

datatype 'a outcome = Throws | Returns 'a

text \<open>Which request a \<^verbatim>\<open>fetch\<close> is: they differ in method and headers.\<close>

datatype site = Listing | Html | Continuation | Browse | Watch

text \<open>
  The oracles. \<open>fetch\<close> takes the site, the page counter of the paginator at the time
  of the call (0 elsewhere) and the URL, so that the same URL may answer differently
  on a later page. The pattern batteries \<^verbatim>\<open>extractVideoIds\<close> and
  \<^verbatim>\<open>extractContinuationToken\<close> are pure functions of the document and stay
  parameters, as do the three helpers of the structured channel discovery, each of
  which returns or throws. \<open>dateNowRead\<close> is \<^verbatim>\<open>Date.now()\<close> when the cache is read,
  \<open>dateNowWrite\<close> the time stamped on the rows of the cache write.
\<close>

record env =
  YOUTUBE_API_KEY :: "string option"
  dateNowRead :: int
  dateNowWrite :: int
  fetch :: "site \<Rightarrow> nat \<Rightarrow> string \<Rightarrow> http_response"
  videosEndpoint :: "string list \<Rightarrow> api_response"
  extractVideoIds :: "string \<Rightarrow> string list"
  extractContinuationToken :: "string \<Rightarrow> string option"
  findChannelId :: "string \<Rightarrow> string option outcome"
  getUploadsPlaylistId :: "string \<Rightarrow> string option outcome"
  getAllVideosFromPlaylist :: "string \<Rightarrow> string list outcome"

subsection \<open>parseDuration\<close>

definition isDigit :: "char \<Rightarrow> bool" where
  "isDigit c = (c \<in> set ''0123456789'')"

text \<open>
  \<^verbatim>\<open>parseInt(ds, 10)\<close> on a string of digits, as a natural number; the source rounds
  to a double beyond \<open>2 ^ 53\<close>, which does not change a comparison with 61.
\<close>

definition parseInt :: "string \<Rightarrow> nat" where
  "parseInt ds = foldl (\<lambda>n c. 10 * n + (of_char c - 48)) 0 ds"

text \<open>
  The unanchored pattern \<^verbatim>\<open>/PT(?:(\d+)H)?(?:(\d+)M)?(?:(\d+)S)?/\<close> matches at the
  leftmost \<^verbatim>\<open>PT\<close>, since everything after it is optional. \<open>findPT\<close> returns the
  text after that \<^verbatim>\<open>PT\<close>.
\<close>

fun findPT :: "string \<Rightarrow> string option" where
  "findPT [] = None"
| "findPT (c # cs) =
     (if startsWith (c # cs) ''PT'' then Some (drop 2 (c # cs)) else findPT cs)"

text \<open>
  One optional group \<^verbatim>\<open>(?:(\d+)X)?\<close>: the greedy run of digits must be non-empty
  and followed by the unit letter; a shorter run is followed by a digit, so
  backtracking finds nothing else. Returns the captured digits and the rest.
\<close>

definition optGroup :: "char \<Rightarrow> string \<Rightarrow> string option \<times> string" where
  "optGroup x s =
     (let ds = takeWhile isDigit s; r = dropWhile isDigit s
      in if ds \<noteq> [] \<and> r \<noteq> [] \<and> hd r = x then (Some ds, tl r) else (None, s))"

definition parseDuration :: "string \<Rightarrow> nat" where
  "parseDuration d =
     (case findPT d of
        None \<Rightarrow> 0
      | Some r \<Rightarrow>
          (let (h, r1) = optGroup CHR ''H'' r;
               (m, r2) = optGroup CHR ''M'' r1;
               (s, r3) = optGroup CHR ''S'' r2;
               hours = parseInt (orElse h ''0'');
               minutes = parseInt (orElse m ''0'');
               seconds = parseInt (orElse s ''0'')
           in hours * 3600 + minutes * 60 + seconds))"

subsection \<open>checkMissingVideoStatusViaScraping\<close>

definition deletedKeywords :: "string list" where
  "deletedKeywords =
     [''isn'' @ [CHR 0x27] @ ''t available'', ''unavailable'', ''deleted'',
      ''terminated'', ''no longer available'']"

definition checkMissingVideoStatusViaScraping :: "env \<Rightarrow> string \<Rightarrow> string" where
  "checkMissingVideoStatusViaScraping e videoId =
     (case fetch e Watch 0 (''https://www.youtube.com/watch?v='' @ videoId) of
        FetchThrew \<Rightarrow> ''deleted''
      | Response ok html \<Rightarrow>
          if includesStr (toLowerCase html) ''private'' then ''private''
          else if list_ex (\<lambda>keyword. includesStr (toLowerCase html) keyword) deletedKeywords
          then ''deleted''
          else ''deleted'')"

subsection \<open>One element of batchPromises\<close>

text \<open>
  The hints \<^verbatim>\<open>videoTypes\<close> are a map on the keys the object owns; an id that names a
  property every object inherits (\<^verbatim>\<open>constructor\<close>) is outside this model.
\<close>

definition processBatchId ::
  "env \<Rightarrow> (string \<rightharpoonup> content_type) \<Rightarrow> (string \<rightharpoonup> api_item) \<Rightarrow> string \<Rightarrow> video_record"
where
  "processBatchId e videoTypes apiResults videoId =
     (case apiResults videoId of
        Some videoData \<Rightarrow>
          (let privacyStatus = orElse (status_privacyStatus videoData) ''unknown'';
               dur = orElse (contentDetails_duration videoData) '''';
               isShort = (dur \<noteq> [] \<and> parseDuration dur \<le> 61);
               ct = (case videoTypes videoId of
                       Some t \<Rightarrow> t
                     | None \<Rightarrow> if isShort then Short else Video)
           in \<lparr> id' = videoId,
                title = orElse (snippet_title videoData) ''Unknown Title'',
                status = privacyStatus,
                thumbnail = thumbnails_default_url videoData,
                publishedAt = snippet_publishedAt videoData,
                contentType = ct,
                duration = Some dur,
                fromCache = False \<rparr>)
      | None \<Rightarrow>
          (let st = checkMissingVideoStatusViaScraping e videoId
           in \<lparr> id' = videoId,
                title = (if st = ''private'' then ''Private Video'' else ''Video Not Found''),
                status = st,
                thumbnail = None,
                publishedAt = None,
                contentType = (case videoTypes videoId of Some t \<Rightarrow> t | None \<Rightarrow> Video),
                duration = None,
                fromCache = False \<rparr>))"

subsection \<open>The status resolver\<close>

text \<open>
  The cache read (\<^verbatim>\<open>if (!ignoreCache)\<close>). The store answers the query
  \<^verbatim>\<open>.in('video_id', allVideoIds).gt('cached_at', cacheExpiry)\<close> with one row for
  each requested key that has a row stamped strictly after the cut-off; the rows come
  in the order of the requested keys.
\<close>

definition cacheExpiry :: "env \<Rightarrow> int" where
  "cacheExpiry e = dateNowRead e - 24 * 60 * 60 * 1000"

definition cacheSelect :: "cache \<Rightarrow> string list \<Rightarrow> int \<Rightarrow> (string \<times> video_data) list" where
  "cacheSelect c ids cutoff =
     List.map_filter
       (\<lambda>k. case c k of
               None \<Rightarrow> None
             | Some row \<Rightarrow> if cached_at row > cutoff then Some (k, data row) else None)
       (jsSet ids)"

text \<open>\<^verbatim>\<open>{ ...item.data, fromCache: true }\<close>\<close>

definition withFromCache :: "video_data \<Rightarrow> bool \<Rightarrow> video_record" where
  "withFromCache d b = video_data.extend d \<lparr> fromCache = b \<rparr>"

text \<open>\<^verbatim>\<open>const { fromCache, ...dataToCache } = result\<close>\<close>

definition dataToCache :: "video_record \<Rightarrow> video_data" where
  "dataToCache r = video_data.truncate r"

text \<open>Returns \<^verbatim>\<open>cachedResults\<close> and \<^verbatim>\<open>idsToFetch\<close>.\<close>

definition cacheRead ::
  "env \<Rightarrow> cache \<Rightarrow> bool \<Rightarrow> string list \<Rightarrow> video_record list \<times> string list"
where
  "cacheRead e c ignoreCache allVideoIds =
     (if \<not> ignoreCache then
        (let cacheData = cacheSelect c allVideoIds (cacheExpiry e)
         in if cacheData \<noteq> [] then
              (map (\<lambda>item. withFromCache (snd item) True) cacheData,
               filter (\<lambda>i. i \<notin> set (map fst cacheData)) allVideoIds)
            else ([], allVideoIds))
      else ([], allVideoIds))"

text \<open>
  The batch loop: slices of 50, one call of the videos endpoint for each. A call that
  rejects, or whose response is not \<^verbatim>\<open>ok\<close>, throws out of the loop.
\<close>

datatype error = ApiKeyNotConfigured | ChannelFetchFailed | InternalServerError

definition batchSize :: nat where
  "batchSize = 50"

definition apiResultsOf :: "api_item list option \<Rightarrow> (string \<rightharpoonup> api_item)" where
  "apiResultsOf items =
     jsMap (map (\<lambda>item. (item_id item, item)) (case items of None \<Rightarrow> [] | Some xs \<Rightarrow> xs))"

function fetchBatches ::
  "env \<Rightarrow> (string \<rightharpoonup> content_type) \<Rightarrow> string list \<Rightarrow> error + video_record list"
where
  "fetchBatches e videoTypes idsToFetch =
     (if idsToFetch = [] then Inr []
      else
        (let batch = take batchSize idsToFetch
         in case videosEndpoint e batch of
              ApiThrew \<Rightarrow> Inl InternalServerError
            | ApiResponse ok items \<Rightarrow>
                if \<not> ok then Inl InternalServerError
                else
                  (let batchResults = map (processBatchId e videoTypes (apiResultsOf items)) batch
                   in case fetchBatches e videoTypes (drop batchSize idsToFetch) of
                        Inl err \<Rightarrow> Inl err
                      | Inr rest \<Rightarrow> Inr (batchResults @ rest))))"
  by pat_completeness auto
termination
  by (relation "measure (\<lambda>(e, videoTypes, idsToFetch). length idsToFetch)")
     (auto simp: batchSize_def)

text \<open>
  The cache write, after the loop: the store's upsert inserts each row of the payload
  under its key, in order, replacing the row that key had. The properties below are
  about lists of distinct ids, whose payload holds each key once, so that they do not
  depend on what the store does with a payload that holds a key twice.
\<close>

definition isDefinitive :: "string \<Rightarrow> bool" where
  "isDefinitive s = (s \<in> set [''public'', ''unlisted'', ''private'', ''deleted''])"

definition upsert :: "cache \<Rightarrow> (string \<times> cache_row) list \<Rightarrow> cache" where
  "upsert c payload = foldl (\<lambda>m kv. m(fst kv \<mapsto> snd kv)) c payload"

definition cachePayload :: "env \<Rightarrow> video_record list \<Rightarrow> (string \<times> cache_row) list" where
  "cachePayload e freshResults =
     map (\<lambda>result. (id' result, \<lparr> data = dataToCache result, cached_at = dateNowWrite e \<rparr>))
       (filter (\<lambda>r. isDefinitive (status r)) freshResults)"

definition cacheWrite :: "env \<Rightarrow> cache \<Rightarrow> bool \<Rightarrow> video_record list \<Rightarrow> cache" where
  "cacheWrite e c ignoreCache freshResults =
     (if freshResults \<noteq> [] \<and> \<not> ignoreCache then
        (let payload = cachePayload e freshResults
         in if payload \<noteq> [] then upsert c payload else c)
      else c)"

text \<open>The aggregator: the last result of each id, in the order of \<^verbatim>\<open>allVideoIds\<close>.\<close>

definition resultMap :: "video_record list \<Rightarrow> (string \<rightharpoonup> video_record)" where
  "resultMap allResults = jsMap (map (\<lambda>r. (id' r, r)) allResults)"

definition sortedResults :: "string list \<Rightarrow> video_record list \<Rightarrow> video_record list" where
  "sortedResults allVideoIds allResults = List.map_filter (resultMap allResults) allVideoIds"

text \<open>
  The handler from \<^verbatim>\<open>allVideoIds\<close> on: the response (an error or the results) and
  the cache it leaves.
\<close>

definition resolveStatuses ::
  "env \<Rightarrow> cache \<Rightarrow> bool \<Rightarrow> (string \<rightharpoonup> content_type) \<Rightarrow> string list
     \<Rightarrow> (error + video_record list) \<times> cache"
where
  "resolveStatuses e c ignoreCache videoTypes allVideoIds =
     (if allVideoIds = [] then (Inr [], c)
      else
        (let (cachedResults, idsToFetch) = cacheRead e c ignoreCache allVideoIds
         in case fetchBatches e videoTypes idsToFetch of
              Inl err \<Rightarrow> (Inl err, c)
            | Inr freshResults \<Rightarrow>
                (Inr (sortedResults allVideoIds (cachedResults @ freshResults)),
                 cacheWrite e c ignoreCache freshResults)))"

subsection \<open>Scraping one page\<close>

definition scrapePageContent :: "env \<Rightarrow> nat \<Rightarrow> string \<Rightarrow> string list" where
  "scrapePageContent e t url =
     (case fetch e Listing t url of
        FetchThrew \<Rightarrow> []
      | Response ok html \<Rightarrow>
          if \<not> ok then
            (if includesStr url ''/@'' then
               (let fallbackUrl = replaceFirst url ''/@'' ''/c/''
                in case fetch e Listing t fallbackUrl of
                     FetchThrew \<Rightarrow> []
                   | Response fallbackOk fallbackHtml \<Rightarrow>
                       if \<not> fallbackOk then [] else extractVideoIds e fallbackHtml)
             else [])
          else extractVideoIds e html)"

definition fetchPageHtml :: "env \<Rightarrow> nat \<Rightarrow> string \<Rightarrow> string outcome" where
  "fetchPageHtml e t url =
     (case fetch e Html t url of
        FetchThrew \<Rightarrow> Throws
      | Response ok body \<Rightarrow> if \<not> ok then Throws else Returns body)"

text \<open>A request that was rejected, or whose response is not \<^verbatim>\<open>ok\<close>.\<close>

definition fetchFailed :: "http_response \<Rightarrow> bool" where
  "fetchFailed r = (case r of FetchThrew \<Rightarrow> True | Response ok body \<Rightarrow> \<not> ok)"

text \<open>The loop over \<^verbatim>\<open>continuationUrls\<close>: the first strategy that yields an id wins.\<close>

fun tryStrategies :: "env \<Rightarrow> nat \<Rightarrow> string list \<Rightarrow> string list \<times> string option" where
  "tryStrategies e t [] = ([], None)"
| "tryStrategies e t (url # urls) =
     (case fetch e Continuation t url of
        FetchThrew \<Rightarrow> tryStrategies e t urls
      | Response ok body \<Rightarrow>
          if ok then
            (let ids = extractVideoIds e body;
                 nextToken = extractContinuationToken e body
             in if ids \<noteq> [] then (ids, nextToken) else tryStrategies e t urls)
          else tryStrategies e t urls)"

definition fetchPageWithMultipleStrategies ::
  "env \<Rightarrow> nat \<Rightarrow> string \<Rightarrow> string \<Rightarrow> string list \<times> string option"
where
  "fetchPageWithMultipleStrategies e t baseUrl token =
     tryStrategies e t
       [baseUrl @ ''?pbj=1&continuation='' @ token,
        baseUrl @ ''?flow=grid&view=0&pbj=1&continuation='' @ token,
        baseUrl @ ''?continuation='' @ token @ ''&pbj=1'',
        ''https://www.youtube.com/youtubei/v1/browse?continuation='' @ token,
        baseUrl @ ''?flow=list&view=0&continuation='' @ token]"

text \<open>
  The POST to the browse endpoint; the string handed to the oracle is the token of the
  request body.
\<close>

definition tryAlternativeContinuation :: "env \<Rightarrow> nat \<Rightarrow> string \<Rightarrow> string list" where
  "tryAlternativeContinuation e t token =
     (case fetch e Browse t token of
        FetchThrew \<Rightarrow> []
      | Response ok body \<Rightarrow> if ok then jsSet (extractVideoIds e body) else [])"

subsection \<open>scrapeWithAggressivePagination\<close>

text \<open>
  The three awaited calls of the loop, each of which may reject: the page fetch, the
  alternative continuation, and the token refresh (the fetch of the base listing with
  \<^verbatim>\<open>?flow=grid&view=0\<close> and the extraction of its token). Each takes the page counter.
\<close>

record pager =
  pageStep :: "nat \<Rightarrow> string \<Rightarrow> (string list \<times> string option) outcome"
  altStep :: "nat \<Rightarrow> string \<Rightarrow> string list outcome"
  refreshStep :: "nat \<Rightarrow> string option outcome"

text \<open>
  What the function returns, and for the proofs the number of token refreshes it
  attempted.
\<close>

record scrape_result =
  videoIds :: "string list"
  tokenRefreshes :: nat

definition maxPages :: nat where
  "maxPages = 50"

text \<open>
  The \<^verbatim>\<open>try\<close> block of one iteration: it ends in \<^verbatim>\<open>break\<close>, runs through to the
  next iteration with the page's \<^verbatim>\<open>nextToken\<close>, or throws; in each case
  \<^verbatim>\<open>allVideoIds\<close> keeps what was added before.
\<close>

datatype step_result =
  Break "string list" | Continue "string list" "string option" | Caught "string list"

definition tryBody :: "pager \<Rightarrow> string list \<Rightarrow> string \<Rightarrow> nat \<Rightarrow> step_result" where
  "tryBody p allVideoIds continuationToken pageCount =
     (case pageStep p pageCount continuationToken of
        Throws \<Rightarrow> Caught allVideoIds
      | Returns pageResults \<Rightarrow>
          (let all1 = addAll allVideoIds (fst pageResults);
               newVideosFound = length all1 - length allVideoIds
           in if newVideosFound = 0 then
                (case altStep p pageCount continuationToken of
                   Throws \<Rightarrow> Caught all1
                 | Returns altResults \<Rightarrow>
                     (let all2 = addAll all1 altResults;
                          altNewVideos = length all2 - length all1
                      in if altNewVideos = 0 then Break all2
                         else Continue all2 (snd pageResults)))
              else Continue all1 (snd pageResults)))"

text \<open>
  The \<^verbatim>\<open>while\<close> loop with its \<^verbatim>\<open>catch\<close>. A refresh that throws leaves through the
  outer \<^verbatim>\<open>catch\<close>, which returns the ids as well.
\<close>

function paginate ::
  "pager \<Rightarrow> string list \<Rightarrow> string option \<Rightarrow> nat \<Rightarrow> nat \<Rightarrow> scrape_result"
where
  "paginate p allVideoIds continuationToken pageCount refreshes =
     (case continuationToken of
        None \<Rightarrow> \<lparr> videoIds = allVideoIds, tokenRefreshes = refreshes \<rparr>
      | Some token \<Rightarrow>
          if token \<noteq> [] \<and> pageCount < maxPages then
            (case tryBody p allVideoIds token (pageCount + 1) of
               Break ids \<Rightarrow> \<lparr> videoIds = ids, tokenRefreshes = refreshes \<rparr>
             | Continue ids nextToken \<Rightarrow> paginate p ids nextToken (pageCount + 1) refreshes
             | Caught ids \<Rightarrow>
                 if pageCount + 1 < 3 then
                   (case refreshStep p (pageCount + 1) of
                      Throws \<Rightarrow> \<lparr> videoIds = ids, tokenRefreshes = refreshes + 1 \<rparr>
                    | Returns refreshed \<Rightarrow>
                        (case refreshed of
                           None \<Rightarrow> \<lparr> videoIds = ids, tokenRefreshes = refreshes + 1 \<rparr>
                         | Some t \<Rightarrow>
                             if t = [] then \<lparr> videoIds = ids, tokenRefreshes = refreshes + 1 \<rparr>
                             else paginate p ids (Some t) (pageCount + 1) (refreshes + 1)))
                 else \<lparr> videoIds = ids, tokenRefreshes = refreshes \<rparr>)
          else \<lparr> videoIds = allVideoIds, tokenRefreshes = refreshes \<rparr>)"
  by pat_completeness auto
termination
  by (relation "measure (\<lambda>(p, allVideoIds, continuationToken, pageCount, refreshes).
                  maxPages - pageCount)") auto

text \<open>
  The function around the loop: the first page, the first token (whose fetch may
  throw into the outer \<^verbatim>\<open>catch\<close>), then the loop.
\<close>

definition scrapeWithPager ::
  "pager \<Rightarrow> string list \<Rightarrow> string option outcome \<Rightarrow> scrape_result"
where
  "scrapeWithPager p initialResults initialToken =
     (let allVideoIds = addAll [] initialResults
      in case initialToken of
           Throws \<Rightarrow> \<lparr> videoIds = allVideoIds, tokenRefreshes = 0 \<rparr>
         | Returns continuationToken \<Rightarrow> paginate p allVideoIds continuationToken 0 0)"

definition pagerOf :: "env \<Rightarrow> string \<Rightarrow> pager" where
  "pagerOf e url =
     \<lparr> pageStep = (\<lambda>pageCount token.
                     Returns (fetchPageWithMultipleStrategies e pageCount url token)),
       altStep = (\<lambda>pageCount token. Returns (tryAlternativeContinuation e pageCount token)),
       refreshStep = (\<lambda>pageCount.
                        case fetchPageHtml e pageCount (url @ ''?flow=grid&view=0'') of
                          Throws \<Rightarrow> Throws
                        | Returns refreshedHtml \<Rightarrow>
                            Returns (extractContinuationToken e refreshedHtml)) \<rparr>"

definition scrapeWithAggressivePagination :: "env \<Rightarrow> string \<Rightarrow> scrape_result" where
  "scrapeWithAggressivePagination e url =
     scrapeWithPager (pagerOf e url) (scrapePageContent e 0 url)
       (case fetchPageHtml e 0 url of
          Throws \<Rightarrow> Throws
        | Returns initialHtml \<Rightarrow> Returns (extractContinuationToken e initialHtml))"

subsection \<open>Channel discovery\<close>

definition isSpace :: "char \<Rightarrow> bool" where
  "isSpace c = (c \<in> set [CHR 0x09, CHR 0x0A, CHR 0x0B, CHR 0x0C, CHR 0x0D, CHR '' ''])"

text \<open>\<^verbatim>\<open>trim\<close> on the ASCII white space; the source also strips the Unicode spaces.\<close>

definition trim :: "string \<Rightarrow> string" where
  "trim s = rev (dropWhile isSpace (rev (dropWhile isSpace s)))"

definition isLineTerminator :: "char \<Rightarrow> bool" where
  "isLineTerminator c = (c = CHR 0x0A \<or> c = CHR 0x0D)"

text \<open>
  \<^verbatim>\<open>channelInput.replace(/\/(videos|shorts).*$/, '')\<close>: the leftmost
  \<^verbatim>\<open>/videos\<close> or \<^verbatim>\<open>/shorts\<close> after which no line terminator follows (the dot
  does not match one, and the dollar is the end of the input) is cut off with
  everything behind it.
\<close>

fun stripTab :: "string \<Rightarrow> string" where
  "stripTab [] = []"
| "stripTab (c # cs) =
     (if (startsWith (c # cs) ''/videos'' \<or> startsWith (c # cs) ''/shorts'')
         \<and> \<not> list_ex isLineTerminator (drop 7 (c # cs))
      then [] else c # stripTab cs)"

definition normalizeChannelUrls :: "string \<Rightarrow> string \<times> string" where
  "normalizeChannelUrls channelInput =
     (let baseUrl =
        (if startsWith channelInput ''http://'' \<or> startsWith channelInput ''https://''
         then stripTab channelInput
         else
           (let channelName = trim channelInput;
                channelName' = (if startsWith channelName ''@'' then drop 1 channelName
                                else channelName)
            in ''https://www.youtube.com/@'' @ channelName'))
      in (baseUrl @ ''/videos'', baseUrl @ ''/shorts''))"

text \<open>The five probes; the counter handed to the oracle is the position of the probe.\<close>

definition tryAdditionalChannelMethods :: "env \<Rightarrow> string \<Rightarrow> string list" where
  "tryAdditionalChannelMethods e channelInput =
     (let channelVariations =
        [replaceFirst channelInput ''@'' ''/c/'',
         replaceFirst channelInput ''@'' ''/user/'',
         replaceFirst channelInput ''@'' ''/channel/'',
         channelInput @ ''/featured'',
         channelInput @ ''/playlists'']
      in foldl (\<lambda>additionalIds (i, variation).
                  addAll additionalIds (scrapePageContent e i variation))
           [] (enumerate 0 channelVariations))"

text \<open>
  The two \<^verbatim>\<open>forEach\<close> loops of \<^verbatim>\<open>scrapeChannelContent\<close>: each id is added to the
  set and its type is assigned.
\<close>

definition tagAll ::
  "content_type \<Rightarrow> string list \<times> (string \<rightharpoonup> content_type) \<Rightarrow> string list
     \<Rightarrow> string list \<times> (string \<rightharpoonup> content_type)"
where
  "tagAll t acc ids =
     foldl (\<lambda>(allVideoIds, videoTypes) i. (setAdd allVideoIds i, videoTypes(i \<mapsto> t))) acc ids"

definition mergeListings ::
  "string list \<Rightarrow> string list \<Rightarrow> string list \<Rightarrow> string list \<times> (string \<rightharpoonup> content_type)"
where
  "mergeListings videoResults shortsResults additionalResults =
     (let afterVideos = tagAll Video ([], Map.empty) videoResults;
          afterShorts = tagAll Short afterVideos shortsResults
      in (addAll (fst afterShorts) additionalResults, snd afterShorts))"

text \<open>
  None of the calls in the \<^verbatim>\<open>try\<close> block of \<^verbatim>\<open>scrapeChannelContent\<close> rejects, so
  its \<^verbatim>\<open>catch\<close> never runs and the function returns.
\<close>

definition scrapeChannelContent ::
  "env \<Rightarrow> string \<Rightarrow> (string list \<times> (string \<rightharpoonup> content_type)) outcome"
where
  "scrapeChannelContent e channelInput =
     (let (videosUrl, shortsUrl) = normalizeChannelUrls channelInput;
          videoResults = scrapeWithAggressivePagination e videosUrl;
          shortsResults = scrapeWithAggressivePagination e shortsUrl;
          additionalResults = tryAdditionalChannelMethods e channelInput
      in Returns (mergeListings (videoIds videoResults) (videoIds shortsResults)
                    additionalResults))"

definition getChannelVideosWithApi ::
  "env \<Rightarrow> string \<Rightarrow> (string list \<times> (string \<rightharpoonup> content_type)) outcome"
where
  "getChannelVideosWithApi e channelInput =
     (case findChannelId e channelInput of
        Throws \<Rightarrow> Throws
      | Returns channelId \<Rightarrow>
          if orElse channelId [] = [] then Throws
          else
            (case getUploadsPlaylistId e (orElse channelId []) of
               Throws \<Rightarrow> Throws
             | Returns uploadsPlaylistId \<Rightarrow>
                 if orElse uploadsPlaylistId [] = [] then Throws
                 else
                   (case getAllVideosFromPlaylist e (orElse uploadsPlaylistId []) of
                      Throws \<Rightarrow> Throws
                    | Returns ids \<Rightarrow> Returns (ids, Map.empty))))"

subsection \<open>The request handler\<close>

record request =
  req_videoIds :: "string list option"
  req_channelUrl :: "string option"
  req_ignoreCache :: bool

text \<open>
  The channel branch of the handler: the structured discovery, and the scraper when
  that throws.
\<close>

definition discoverChannel ::
  "env \<Rightarrow> string \<Rightarrow> error + (string list \<times> (string \<rightharpoonup> content_type))"
where
  "discoverChannel e channelUrl =
     (case getChannelVideosWithApi e channelUrl of
        Returns apiResult \<Rightarrow> Inr apiResult
      | Throws \<Rightarrow>
          (case scrapeChannelContent e channelUrl of
             Returns scrapeResult \<Rightarrow> Inr scrapeResult
           | Throws \<Rightarrow> Inl ChannelFetchFailed))"

text \<open>\<^verbatim>\<open>videoIds || []\<close>\<close>

definition suppliedIds :: "request \<Rightarrow> string list" where
  "suppliedIds req = (case req_videoIds req of None \<Rightarrow> [] | Some xs \<Rightarrow> xs)"

text \<open>
  The first part of the handler, up to \<^verbatim>\<open>allVideoIds\<close>: the ids to resolve and the
  type hints. Without a channel the supplied ids are taken as they are; with one they
  are united with the channel's ids through a \<^verbatim>\<open>Set\<close>.
\<close>

definition collectVideoIds ::
  "env \<Rightarrow> request \<Rightarrow> error + (string list \<times> (string \<rightharpoonup> content_type))"
where
  "collectVideoIds e req =
     (let finalVideoIds = suppliedIds req
      in if orElse (req_channelUrl req) [] \<noteq> [] then
           (case discoverChannel e (orElse (req_channelUrl req) []) of
              Inl err \<Rightarrow> Inl err
            | Inr channelResult \<Rightarrow>
                Inr (jsSet (finalVideoIds @ fst channelResult),
                     Map.empty ++ snd channelResult))
         else Inr (finalVideoIds, Map.empty))"

definition handler :: "env \<Rightarrow> cache \<Rightarrow> request \<Rightarrow> (error + video_record list) \<times> cache" where
  "handler e c req =
     (if orElse (YOUTUBE_API_KEY e) [] = [] then (Inl ApiKeyNotConfigured, c)
      else
        (case collectVideoIds e req of
           Inl err \<Rightarrow> (Inl err, c)
         | Inr (allVideoIds, videoTypes) \<Rightarrow>
             resolveStatuses e c (req_ignoreCache req) videoTypes allVideoIds))"

subsection \<open>Concrete environments and inputs\<close>

text \<open>
  An environment in which every network call fails, and variations of it, for the
  concrete runs below. The clock reads 100000000 ms; a day is 86400000 ms.
\<close>

definition silentEnv :: env where
  "silentEnv =
     \<lparr> YOUTUBE_API_KEY = Some ''key'',
       dateNowRead = 100000000,
       dateNowWrite = 100000000,
       fetch = (\<lambda>s t url. FetchThrew),
       videosEndpoint = (\<lambda>batch. ApiThrew),
       extractVideoIds = (\<lambda>html. []),
       extractContinuationToken = (\<lambda>html. None),
       findChannelId = (\<lambda>q. Throws),
       getUploadsPlaylistId = (\<lambda>q. Throws),
       getAllVideosFromPlaylist = (\<lambda>q. Throws) \<rparr>"

definition itemOf :: "string \<Rightarrow> string option \<Rightarrow> string option \<Rightarrow> api_item" where
  "itemOf i st dur =
     \<lparr> item_id = i, snippet_title = Some ''A title'', snippet_publishedAt = None,
       thumbnails_default_url = None, status_privacyStatus = st,
       contentDetails_duration = dur \<rparr>"

text \<open>The videos endpoint answers every batch with the given items.\<close>

definition apiEnv :: "api_item list \<Rightarrow> env" where
  "apiEnv items = silentEnv \<lparr> videosEndpoint := (\<lambda>batch. ApiResponse True (Some items)) \<rparr>"

text \<open>
  The videos endpoint knows no video; the watch page of \<^verbatim>\<open>AAAAAAAAAAA\<close> says that
  the video is private, every other watch page says nothing of the kind.
\<close>

definition watchEnv :: env where
  "watchEnv =
     silentEnv
       \<lparr> fetch := (\<lambda>s t url.
            if s = Watch then
              Response True
                (if url = ''https://www.youtube.com/watch?v=AAAAAAAAAAA''
                 then ''This video is Private.'' else ''Sorry.'')
            else FetchThrew),
         videosEndpoint := (\<lambda>batch. ApiResponse True (Some [])) \<rparr>"

text \<open>
  Every listing page shows the one video \<^verbatim>\<open>AAAAAAAAAAA\<close>, which the videos endpoint
  knows as public; the structured discovery and every other fetch fail.
\<close>

definition listingEnv :: env where
  "listingEnv =
     silentEnv
       \<lparr> fetch := (\<lambda>s t url. if s = Listing then Response True ''page'' else FetchThrew),
         videosEndpoint := (\<lambda>batch. ApiResponse True
            (Some [itemOf ''AAAAAAAAAAA'' (Some ''public'') (Some ''PT5M'')])),
         extractVideoIds := (\<lambda>html. [''AAAAAAAAAAA'']) \<rparr>"

text \<open>
  The first page of every listing shows the one video \<^verbatim>\<open>AAAAAAAAAAA\<close> and carries a
  continuation token; every request for a further page is rejected.
\<close>

definition brokenPagesEnv :: env where
  "brokenPagesEnv =
     silentEnv
       \<lparr> fetch := (\<lambda>s t url.
            if s = Listing \<or> s = Html then Response True ''page'' else FetchThrew),
         extractVideoIds := (\<lambda>html. [''AAAAAAAAAAA'']),
         extractContinuationToken := (\<lambda>html. Some ''starttoken00'') \<rparr>"

text \<open>A pager whose page fetch always throws and whose token refresh always succeeds.\<close>

definition throwingPager :: pager where
  "throwingPager =
     \<lparr> pageStep = (\<lambda>pageCount token. Throws),
       altStep = (\<lambda>pageCount token. Returns []),
       refreshStep = (\<lambda>pageCount. Returns (Some ''freshtoken00'')) \<rparr>"

text \<open>Requests, the records they meet, and a cache of one row.\<close>

definition twiceRequest :: request where
  "twiceRequest =
     \<lparr> req_videoIds = Some [''AAAAAAAAAAA'', ''AAAAAAAAAAA''], req_channelUrl = None,
       req_ignoreCache = False \<rparr>"

definition channelRequest :: request where
  "channelRequest =
     \<lparr> req_videoIds = Some [''BBBBBBBBBBB''], req_channelUrl = Some ''@example'',
       req_ignoreCache = True \<rparr>"

definition freshRequest :: request where
  "freshRequest =
     \<lparr> req_videoIds = Some [''AAAAAAAAAAA''], req_channelUrl = None,
       req_ignoreCache = True \<rparr>"

definition publicData :: video_data where
  "publicData =
     \<lparr> id' = ''AAAAAAAAAAA'', title = ''A title'', status = ''public'', thumbnail = None,
       publishedAt = None, contentType = Video, duration = Some ''PT5M'' \<rparr>"

definition shortData :: video_data where
  "shortData = publicData \<lparr> contentType := Short \<rparr>"

definition notFoundData :: video_data where
  "notFoundData =
     \<lparr> id' = ''BBBBBBBBBBB'', title = ''Video Not Found'', status = ''deleted'',
       thumbnail = None, publishedAt = None, contentType = Video, duration = None \<rparr>"

definition unknownData :: video_data where
  "unknownData = publicData \<lparr> status := ''unknown'' \<rparr>"

definition cacheAt :: "int \<Rightarrow> cache" where
  "cacheAt t = [''AAAAAAAAAAA'' \<mapsto> \<lparr> data = publicData, cached_at = t \<rparr>]"

definition publicEnv :: env where
  "publicEnv = apiEnv [itemOf ''AAAAAAAAAAA'' (Some ''public'') (Some ''PT5M'')]"

definition unknownEnv :: env where
  "unknownEnv = apiEnv [itemOf ''AAAAAAAAAAA'' None (Some ''PT5M'')]"

section \<open>Properties\<close>

subsection \<open>Sets, maps and strings\<close>

declare fetchBatches.simps [simp del]
declare paginate.simps [simp del]

lemma set_setAdd: "set (setAdd s x) = insert x (set s)"
  by (auto simp: setAdd_def)

lemma distinct_setAdd: "distinct s \<Longrightarrow> distinct (setAdd s x)"
  by (auto simp: setAdd_def)

lemma addAll_snoc: "addAll s (xs @ [x]) = setAdd (addAll s xs) x"
  by (simp add: addAll_def)

lemma addAll_Nil: "addAll s [] = s"
  by (simp add: addAll_def)

lemma set_addAll: "set (addAll s xs) = set s \<union> set xs"
  by (induction xs rule: rev_induct) (auto simp: addAll_Nil addAll_snoc set_setAdd)

lemma distinct_addAll: "distinct s \<Longrightarrow> distinct (addAll s xs)"
  by (induction xs rule: rev_induct) (auto simp: addAll_Nil addAll_snoc distinct_setAdd)

lemma set_jsSet: "set (jsSet xs) = set xs"
  by (simp add: jsSet_def set_addAll)

lemma distinct_jsSet: "distinct (jsSet xs)"
  by (simp add: jsSet_def distinct_addAll)

lemma addAll_decomp: "addAll s xs = s @ filter (\<lambda>x. x \<notin> set s) (jsSet xs)"
proof (induction xs rule: rev_induct)
  case Nil
  show ?case by (simp add: addAll_def jsSet_def)
next
  case (snoc x xs)
  have j: "jsSet (xs @ [x]) = setAdd (jsSet xs) x"
    by (simp add: jsSet_def addAll_snoc)
  show ?case
    unfolding addAll_snoc j snoc.IH
    by (auto simp: setAdd_def set_jsSet)
qed

lemma jsSet_append: "jsSet (xs @ ys) = jsSet xs @ filter (\<lambda>y. y \<notin> set xs) (jsSet ys)"
proof -
  have "jsSet (xs @ ys) = addAll (jsSet xs) ys"
    by (simp add: jsSet_def addAll_def)
  then show ?thesis by (simp add: addAll_decomp set_jsSet)
qed

lemma jsSet_distinct: "distinct xs \<Longrightarrow> jsSet xs = xs"
proof (induction xs rule: rev_induct)
  case Nil
  show ?case by (simp add: addAll_def jsSet_def)
next
  case (snoc x xs)
  then show ?case by (simp add: jsSet_def addAll_snoc setAdd_def)
qed

lemma length_addAll: "length s \<le> length (addAll s xs)"
  by (simp add: addAll_decomp)

lemma includesStr_iff: "includesStr s sub \<longleftrightarrow> (\<exists>pre post. s = pre @ sub @ post)"
proof (induction s)
  case Nil
  show ?case by auto
next
  case (Cons c cs)
  have a: "startsWith (c # cs) sub \<longleftrightarrow> (\<exists>post. c # cs = sub @ post)"
    unfolding startsWith_def
    by (metis append_eq_conv_conj)
  have b: "(\<exists>pre post. c # cs = pre @ sub @ post) \<longleftrightarrow>
           (\<exists>post. c # cs = sub @ post) \<or> (\<exists>pre post. cs = pre @ sub @ post)"
  proof
    assume "\<exists>pre post. c # cs = pre @ sub @ post"
    then obtain pre post where h: "c # cs = pre @ sub @ post" by blast
    show "(\<exists>post. c # cs = sub @ post) \<or> (\<exists>pre post. cs = pre @ sub @ post)"
    proof (cases pre)
      case Nil
      with h show ?thesis by auto
    next
      case (Cons d ds)
      with h have "cs = ds @ sub @ post" by simp
      then show ?thesis by blast
    qed
  next
    assume "(\<exists>post. c # cs = sub @ post) \<or> (\<exists>pre post. cs = pre @ sub @ post)"
    then show "\<exists>pre post. c # cs = pre @ sub @ post"
    proof
      assume "\<exists>post. c # cs = sub @ post"
      then obtain post where "c # cs = [] @ sub @ post" by auto
      then show ?thesis by blast
    next
      assume "\<exists>pre post. cs = pre @ sub @ post"
      then obtain pre post where "c # cs = (c # pre) @ sub @ post" by auto
      then show ?thesis by blast
    qed
  qed
  show ?case using Cons.IH a b by simp
qed

lemma fold_upd: "foldl (\<lambda>m kv. m(fst kv \<mapsto> snd kv)) m kvs = m ++ map_of (rev kvs)"
  by (induction kvs rule: rev_induct) (auto simp: fun_eq_iff map_add_def)

lemma jsMap_map_of: "jsMap kvs = map_of (rev kvs)"
  by (simp add: jsMap_def fold_upd)

lemma upsert_map_of: "upsert c kvs = c ++ map_of (rev kvs)"
  by (simp add: upsert_def fold_upd)

lemma jsMap_snoc: "jsMap (kvs @ [kv]) = (jsMap kvs)(fst kv \<mapsto> snd kv)"
  by (simp add: jsMap_def)

lemma upsert_snoc: "upsert c (kvs @ [kv]) = (upsert c kvs)(fst kv \<mapsto> snd kv)"
  by (simp add: upsert_def)

subsection \<open>Records of one batch\<close>

text \<open>
  C2, as amended. A requested id that the batch response holds gets the response's
  \<^verbatim>\<open>privacyStatus\<close> verbatim when that field is present and not empty, and the
  status \<^verbatim>\<open>unknown\<close> otherwise; the handler does not restrict the field to a set of
  values. The record carries the requested id and is not from the cache.
\<close>

theorem found_status_verbatim_or_unknown:
  assumes "apiResults videoId = Some videoData"
  shows "status (processBatchId e videoTypes apiResults videoId) =
           (case status_privacyStatus videoData of
              None \<Rightarrow> ''unknown''
            | Some s \<Rightarrow> if s = [] then ''unknown'' else s)
         \<and> fromCache (processBatchId e videoTypes apiResults videoId) = False
         \<and> id' (processBatchId e videoTypes apiResults videoId) = videoId"
  using assms by (simp add: processBatchId_def orElse_def Let_def split: option.splits)

theorem found_status_verbatim_or_unknown_witness:
  "status (processBatchId silentEnv Map.empty
             (apiResultsOf (Some [itemOf ''AAAAAAAAAAA'' (Some ''unlisted'') (Some ''PT5M'')]))
             ''AAAAAAAAAAA'') = ''unlisted''"
  using found_status_verbatim_or_unknown
    [of "apiResultsOf (Some [itemOf ''AAAAAAAAAAA'' (Some ''unlisted'') (Some ''PT5M'')])"
        "''AAAAAAAAAAA''" "itemOf ''AAAAAAAAAAA'' (Some ''unlisted'') (Some ''PT5M'')"
        silentEnv Map.empty]
  by (simp add: apiResultsOf_def jsMap_def itemOf_def)

text \<open>
  C2 as stated fails: an item of the response without a \<^verbatim>\<open>privacyStatus\<close> gives a
  record whose status is none of the five.
\<close>

theorem found_status_counterexample:
  "status (processBatchId silentEnv Map.empty
             (apiResultsOf (Some [itemOf ''AAAAAAAAAAA'' None (Some ''PT5M'')]))
             ''AAAAAAAAAAA'')
     \<notin> set [''public'', ''unlisted'', ''private'', ''deleted'', ''checking'']"
  by (simp add: processBatchId_def apiResultsOf_def jsMap_def itemOf_def orElse_def Let_def)

text \<open>
  C7. A requested id that the batch response lacks is classified by its watch page:
  \<^verbatim>\<open>private\<close> when the lower-cased body contains \<^verbatim>\<open>private\<close>, \<^verbatim>\<open>deleted\<close> in every
  other case, a failed fetch included. The title follows the status, and thumbnail,
  publication time and duration are empty.
\<close>

theorem missing_record_classified_by_watch_page:
  assumes "apiResults videoId = None"
  shows "status (processBatchId e videoTypes apiResults videoId) =
           (case fetch e Watch 0 (''https://www.youtube.com/watch?v='' @ videoId) of
              FetchThrew \<Rightarrow> ''deleted''
            | Response ok html \<Rightarrow>
                if includesStr (toLowerCase html) ''private'' then ''private'' else ''deleted'')
         \<and> title (processBatchId e videoTypes apiResults videoId) =
             (if status (processBatchId e videoTypes apiResults videoId) = ''private''
              then ''Private Video'' else ''Video Not Found'')
         \<and> thumbnail (processBatchId e videoTypes apiResults videoId) = None
         \<and> publishedAt (processBatchId e videoTypes apiResults videoId) = None
         \<and> duration (processBatchId e videoTypes apiResults videoId) = None
         \<and> fromCache (processBatchId e videoTypes apiResults videoId) = False
         \<and> id' (processBatchId e videoTypes apiResults videoId) = videoId"
  using assms
  by (simp add: processBatchId_def checkMissingVideoStatusViaScraping_def Let_def
           split: http_response.splits)

theorem missing_record_classified_by_watch_page_witness:
  "apiResultsOf (Some []) ''AAAAAAAAAAA'' = None
   \<and> status (processBatchId watchEnv Map.empty (apiResultsOf (Some [])) ''AAAAAAAAAAA'') = ''private''
   \<and> title (processBatchId watchEnv Map.empty (apiResultsOf (Some [])) ''AAAAAAAAAAA'') = ''Private Video''
   \<and> status (processBatchId watchEnv Map.empty (apiResultsOf (Some [])) ''BBBBBBBBBBB'') = ''deleted''
   \<and> title (processBatchId watchEnv Map.empty (apiResultsOf (Some [])) ''BBBBBBBBBBB'') = ''Video Not Found''
   \<and> status (processBatchId silentEnv Map.empty (apiResultsOf (Some [])) ''BBBBBBBBBBB'') = ''deleted''"
proof -
  have n: "apiResultsOf (Some []) i = None" for i
    by (simp add: apiResultsOf_def jsMap_def)
  have l: "toLowerCase ''This video is Private.'' = ''this video is private.''"
    by code_simp
  have l2: "toLowerCase ''Sorry.'' = ''sorry.''"
    by code_simp
  show ?thesis
    using missing_record_classified_by_watch_page [where e = watchEnv and videoTypes = Map.empty
            and apiResults = "apiResultsOf (Some [])" and videoId = "''AAAAAAAAAAA''"]
          missing_record_classified_by_watch_page [where e = watchEnv and videoTypes = Map.empty
            and apiResults = "apiResultsOf (Some [])" and videoId = "''BBBBBBBBBBB''"]
          missing_record_classified_by_watch_page [where e = silentEnv and videoTypes = Map.empty
            and apiResults = "apiResultsOf (Some [])" and videoId = "''BBBBBBBBBBB''"]
    by (simp add: n watchEnv_def silentEnv_def l l2 startsWith_def)
qed

subsection \<open>Classification by duration\<close>

text \<open>
  Without a hint, a found video is a short exactly when its duration string is not
  empty and \<open>parseDuration\<close> gives at most 61; on the forms \<^verbatim>\<open>PT#M#S\<close> and
  \<^verbatim>\<open>PT#S\<close> the boundary lies between 61 and 62 seconds.
\<close>

lemma contentType_by_duration:
  assumes "apiResults videoId = Some videoData" and "videoTypes videoId = None"
  shows "contentType (processBatchId e videoTypes apiResults videoId) =
           (if orElse (contentDetails_duration videoData) [] \<noteq> []
               \<and> parseDuration (orElse (contentDetails_duration videoData) []) \<le> 61
            then Short else Video)"
  using assms by (simp add: processBatchId_def Let_def)

lemma parseDuration_boundary:
  "parseDuration ''PT1M1S'' = 61" "parseDuration ''PT61S'' = 61"
  "parseDuration ''PT1M2S'' = 62" "parseDuration ''PT62S'' = 62"
  by (simp_all add: parseDuration_def startsWith_def optGroup_def isDigit_def parseInt_def
        orElse_def)

text \<open>
  C9 at the duration \<^verbatim>\<open>P1DT5S\<close>, one day and five seconds, the form the videos
  endpoint gives to a video of a day or more: the pattern of \<open>parseDuration\<close> finds no
  \<^verbatim>\<open>PT\<close> in it, the result is 0 seconds, and the video is classified as a short.
\<close>

theorem day_form_duration_classified_short:
  "parseDuration ''P1DT5S'' = 0
   \<and> contentType (processBatchId silentEnv Map.empty
        (apiResultsOf (Some [itemOf ''AAAAAAAAAAA'' (Some ''public'') (Some ''P1DT5S'')]))
        ''AAAAAAAAAAA'') = Short"
  by (simp add: processBatchId_def apiResultsOf_def jsMap_def itemOf_def orElse_def Let_def
        parseDuration_def startsWith_def)

subsection \<open>The batch loop\<close>

lemma set_map_filter:
  "y \<in> set (List.map_filter f xs) \<longleftrightarrow> (\<exists>x \<in> set xs. f x = Some y)"
  by (induction xs) (auto split: option.splits)

lemma map_filter_total:
  "\<forall>x \<in> set xs. f x \<noteq> None \<Longrightarrow> List.map_filter f xs = map (\<lambda>x. the (f x)) xs"
  by (induction xs) auto

lemma processBatchId_id: "id' (processBatchId e videoTypes apiResults i) = i"
  by (simp add: processBatchId_def Let_def split: option.splits)

lemma processBatchId_fresh: "\<not> fromCache (processBatchId e videoTypes apiResults i)"
  by (simp add: processBatchId_def Let_def split: option.splits)

lemma fetchBatches_Nil: "fetchBatches e videoTypes [] = Inr []"
  by (simp add: fetchBatches.simps)

text \<open>A list of at most 50 ids is one batch.\<close>

lemma fetchBatches_single:
  "ids \<noteq> [] \<Longrightarrow> length ids \<le> 50 \<Longrightarrow> videosEndpoint e ids = ApiResponse True items \<Longrightarrow>
     fetchBatches e videoTypes ids
       = Inr (map (processBatchId e videoTypes (apiResultsOf items)) ids)"
  by (subst fetchBatches.simps) (simp add: batchSize_def fetchBatches_Nil)

text \<open>
  When the loop finishes, it has produced one record for each id it was given, in
  order, none of them from the cache.
\<close>

lemma fetchBatches_ok:
  "fetchBatches e videoTypes ids = Inr fresh \<Longrightarrow>
     map id' fresh = ids \<and> (\<forall>r \<in> set fresh. \<not> fromCache r)"
proof (induction e videoTypes ids arbitrary: fresh rule: fetchBatches.induct)
  case (1 e videoTypes idsToFetch)
  show ?case
  proof (cases "idsToFetch = []")
    case True
    with "1.prems" show ?thesis by (simp add: fetchBatches.simps)
  next
    case False
    from "1.prems" False obtain items rest where
      ep: "videosEndpoint e (take batchSize idsToFetch) = ApiResponse True items"
      and rest: "fetchBatches e videoTypes (drop batchSize idsToFetch) = Inr rest"
      and fresh: "fresh = map (processBatchId e videoTypes (apiResultsOf items))
                     (take batchSize idsToFetch) @ rest"
      by (subst (asm) fetchBatches.simps)
         (auto simp: Let_def split: api_response.splits if_splits sum.splits)
    have ih: "map id' rest = drop batchSize idsToFetch \<and> (\<forall>r \<in> set rest. \<not> fromCache r)"
      using "1.IH" [OF False refl ep _ refl rest] by simp
    show ?thesis
      unfolding fresh using ih
      by (auto simp: processBatchId_id processBatchId_fresh o_def)
  qed
qed

subsection \<open>The result map and the aggregator\<close>

lemma resultMap_snoc: "resultMap (rs @ [r]) = (resultMap rs)(id' r \<mapsto> r)"
  by (simp add: resultMap_def jsMap_snoc)

lemma resultMap_Nil: "resultMap [] = Map.empty"
  by (simp add: resultMap_def jsMap_def)

lemma resultMap_Some: "resultMap rs k = Some r \<Longrightarrow> r \<in> set rs \<and> id' r = k"
proof (induction rs rule: rev_induct)
  case Nil
  then show ?case by (simp add: resultMap_Nil)
next
  case (snoc x xs)
  show ?case
  proof (cases "id' x = k")
    case True
    with snoc.prems show ?thesis by (simp add: resultMap_snoc)
  next
    case False
    with snoc.prems have "resultMap xs k = Some r" by (simp add: resultMap_snoc)
    with snoc.IH show ?thesis by simp
  qed
qed

lemma resultMap_None: "resultMap rs k = None \<longleftrightarrow> k \<notin> id' ` set rs"
proof (induction rs rule: rev_induct)
  case Nil
  show ?case by (simp add: resultMap_Nil)
next
  case (snoc x xs)
  then show ?case by (cases "id' x = k") (simp_all add: resultMap_snoc)
qed

lemma resultMap_unique:
  assumes "r \<in> set rs" and "\<forall>r' \<in> set rs. id' r' = id' r \<longrightarrow> r' = r"
  shows "resultMap rs (id' r) = Some r"
proof -
  from assms(1) have "id' r \<in> id' ` set rs" by (rule imageI)
  then have "resultMap rs (id' r) \<noteq> None" by (simp only: resultMap_None not_not)
  then obtain x where x: "resultMap rs (id' r) = Some x" by blast
  from resultMap_Some [OF x] assms(2) have "x = r" by blast
  with x show ?thesis by simp
qed

lemma sortedResults_subset: "r \<in> set (sortedResults ids allResults) \<Longrightarrow> r \<in> set allResults"
  unfolding sortedResults_def set_map_filter using resultMap_Some by blast

lemma sortedResults_ids:
  "map id' (sortedResults ids rs) = filter (\<lambda>i. i \<in> id' ` set rs) ids"
proof (induction ids)
  case Nil
  show ?case by (simp add: sortedResults_def)
next
  case (Cons i ids)
  show ?case
  proof (cases "resultMap rs i")
    case None
    with Cons resultMap_None [of rs i] show ?thesis
      by (simp add: sortedResults_def)
  next
    case (Some r)
    from resultMap_Some [OF Some] have "id' r = i" "i \<in> id' ` set rs" by auto
    with Cons Some show ?thesis
      by (simp add: sortedResults_def)
  qed
qed

lemma sortedResults_image:
  assumes "i \<in> set ids"
  shows "i \<in> id' ` set (sortedResults ids rs) \<longleftrightarrow> i \<in> id' ` set rs"
proof -
  have "set (map id' (sortedResults ids rs)) = {i \<in> set ids. i \<in> id' ` set rs}"
    unfolding sortedResults_ids by auto
  with assms show ?thesis by auto
qed

lemma sortedResults_total:
  assumes "\<forall>i \<in> set ids. i \<in> id' ` set rs"
  shows "sortedResults ids rs = map (\<lambda>i. the (resultMap rs i)) ids"
proof -
  from assms have "\<forall>i \<in> set ids. resultMap rs i \<noteq> None"
    by (simp add: resultMap_None)
  then show ?thesis
    unfolding sortedResults_def by (rule map_filter_total)
qed

subsection \<open>The cache read\<close>

lemma cacheSelect_iff:
  "(k, d) \<in> set (cacheSelect c ids cutoff) \<longleftrightarrow>
     k \<in> set ids \<and> (\<exists>row. c k = Some row \<and> d = data row \<and> cutoff < cached_at row)"
proof -
  have "(k, d) \<in> set (cacheSelect c ids cutoff) \<longleftrightarrow>
        (\<exists>x \<in> set (jsSet ids).
           (case c x of None \<Rightarrow> None
            | Some row \<Rightarrow> if cutoff < cached_at row then Some (x, data row) else None) = Some (k, d))"
    by (simp add: cacheSelect_def set_map_filter)
  also have "\<dots> \<longleftrightarrow> k \<in> set ids \<and> (\<exists>row. c k = Some row \<and> d = data row \<and> cutoff < cached_at row)"
    by (auto simp: set_jsSet split: option.splits if_splits)
  finally show ?thesis .
qed

lemma cacheSelect_keys:
  "k \<in> fst ` set (cacheSelect c ids cutoff) \<longleftrightarrow>
     k \<in> set ids \<and> (\<exists>row. c k = Some row \<and> cutoff < cached_at row)"
proof
  assume "k \<in> fst ` set (cacheSelect c ids cutoff)"
  then obtain d where "(k, d) \<in> set (cacheSelect c ids cutoff)" by force
  then show "k \<in> set ids \<and> (\<exists>row. c k = Some row \<and> cutoff < cached_at row)"
    unfolding cacheSelect_iff by blast
next
  assume "k \<in> set ids \<and> (\<exists>row. c k = Some row \<and> cutoff < cached_at row)"
  then obtain row where "k \<in> set ids" "c k = Some row" "cutoff < cached_at row" by blast
  then have "(k, data row) \<in> set (cacheSelect c ids cutoff)"
    unfolding cacheSelect_iff by blast
  then show "k \<in> fst ` set (cacheSelect c ids cutoff)" by force
qed

lemma cacheRead_fst:
  "fst (cacheRead e c False ids) =
     map (\<lambda>item. withFromCache (snd item) True) (cacheSelect c ids (cacheExpiry e))"
  by (simp add: cacheRead_def Let_def)

lemma cacheRead_snd:
  "snd (cacheRead e c False ids) =
     filter (\<lambda>i. i \<notin> fst ` set (cacheSelect c ids (cacheExpiry e))) ids"
  by (simp add: cacheRead_def Let_def)

lemma cacheRead_ignore: "cacheRead e c True ids = ([], ids)"
  by (simp add: cacheRead_def)

lemma cacheRead_Nil: "cacheRead e c ic [] = ([], [])"
  by (simp add: cacheRead_def cacheSelect_def jsSet_def addAll_def)

lemma cacheRead_toFetch_distinct: "distinct ids \<Longrightarrow> distinct (snd (cacheRead e c ic ids))"
  by (simp add: cacheRead_def Let_def)

lemma withFromCache_id: "id' (withFromCache d b) = id' d"
  by (simp add: withFromCache_def video_data.defs)

lemma withFromCache_dataToCache: "withFromCache (dataToCache r) b = r\<lparr>fromCache := b\<rparr>"
  by (simp add: withFromCache_def dataToCache_def video_data.defs)

lemma dataToCache_id: "id' (dataToCache r) = id' r"
  by (simp add: dataToCache_def video_data.defs)

lemma resolveStatuses_unfold:
  "resolveStatuses e c ic videoTypes allVideoIds =
     (if allVideoIds = [] then (Inr [], c)
      else case fetchBatches e videoTypes (snd (cacheRead e c ic allVideoIds)) of
             Inl err \<Rightarrow> (Inl err, c)
           | Inr freshResults \<Rightarrow>
               (Inr (sortedResults allVideoIds (fst (cacheRead e c ic allVideoIds) @ freshResults)),
                cacheWrite e c ic freshResults))"
  by (simp add: resolveStatuses_def case_prod_beta)

text \<open>
  C6. With the cache in use, the row of a requested id is served exactly when its
  \<^verbatim>\<open>cached_at\<close> is strictly later than the request time minus 24 hours; otherwise,
  and so for a row that is exactly 24 hours old, the id is fetched again.
\<close>

theorem cache_hit_iff_strictly_newer:
  assumes "i \<in> set allVideoIds" and "c i = Some row"
  shows "((i, data row) \<in> set (cacheSelect c allVideoIds (cacheExpiry e))
            \<longleftrightarrow> dateNowRead e - 86400000 < cached_at row)
         \<and> (i \<in> set (snd (cacheRead e c False allVideoIds))
            \<longleftrightarrow> cached_at row \<le> dateNowRead e - 86400000)
         \<and> (dateNowRead e - 86400000 < cached_at row \<longrightarrow>
              withFromCache (data row) True \<in> set (fst (cacheRead e c False allVideoIds)))"
proof -
  have a: "(i, data row) \<in> set (cacheSelect c allVideoIds (cacheExpiry e))
            \<longleftrightarrow> dateNowRead e - 86400000 < cached_at row"
    unfolding cacheSelect_iff using assms by (simp add: cacheExpiry_def)
  have b: "i \<in> set (snd (cacheRead e c False allVideoIds))
            \<longleftrightarrow> cached_at row \<le> dateNowRead e - 86400000"
    unfolding cacheRead_snd using assms by (simp add: cacheSelect_keys cacheExpiry_def not_less)
  have c: "dateNowRead e - 86400000 < cached_at row \<longrightarrow>
             withFromCache (data row) True \<in> set (fst (cacheRead e c False allVideoIds))"
    unfolding cacheRead_fst using a by force
  from a b c show ?thesis by blast
qed

theorem cache_hit_iff_strictly_newer_witness:
  "''AAAAAAAAAAA'' \<in> set (snd (cacheRead silentEnv (cacheAt 13600000) False [''AAAAAAAAAAA'']))
   \<and> ''AAAAAAAAAAA'' \<notin> set (snd (cacheRead silentEnv (cacheAt 13600001) False [''AAAAAAAAAAA'']))
   \<and> withFromCache publicData True
        \<in> set (fst (cacheRead silentEnv (cacheAt 13600001) False [''AAAAAAAAAAA'']))"
  using cache_hit_iff_strictly_newer [of "''AAAAAAAAAAA''" "[''AAAAAAAAAAA'']" "cacheAt 13600000"
          "\<lparr> data = publicData, cached_at = 13600000 \<rparr>" silentEnv]
        cache_hit_iff_strictly_newer [of "''AAAAAAAAAAA''" "[''AAAAAAAAAAA'']" "cacheAt 13600001"
          "\<lparr> data = publicData, cached_at = 13600001 \<rparr>" silentEnv]
  by (simp add: cacheAt_def silentEnv_def)


subsection \<open>Concrete runs\<close>

lemma parseDuration_PT5M: "parseDuration ''PT5M'' = 300"
  by (simp add: parseDuration_def startsWith_def optGroup_def isDigit_def parseInt_def orElse_def)

lemma publicEnv_record:
  "processBatchId publicEnv Map.empty
     (apiResultsOf (Some [itemOf ''AAAAAAAAAAA'' (Some ''public'') (Some ''PT5M'')]))
     ''AAAAAAAAAAA'' = withFromCache publicData False"
  by (simp add: processBatchId_def apiResultsOf_def jsMap_def itemOf_def orElse_def Let_def
        parseDuration_PT5M withFromCache_def publicData_def video_data.defs)

lemma unknownEnv_record:
  "processBatchId unknownEnv Map.empty
     (apiResultsOf (Some [itemOf ''AAAAAAAAAAA'' None (Some ''PT5M'')]))
     ''AAAAAAAAAAA'' = withFromCache unknownData False"
  by (simp add: processBatchId_def apiResultsOf_def jsMap_def itemOf_def orElse_def Let_def
        parseDuration_PT5M withFromCache_def publicData_def unknownData_def video_data.defs)

lemma publicEnv_fetch:
  "fetchBatches publicEnv Map.empty [''AAAAAAAAAAA''] = Inr [withFromCache publicData False]"
  using fetchBatches_single [of "[''AAAAAAAAAAA'']" publicEnv
          "Some [itemOf ''AAAAAAAAAAA'' (Some ''public'') (Some ''PT5M'')]" Map.empty]
  by (simp add: publicEnv_record) (simp add: publicEnv_def apiEnv_def silentEnv_def)

lemma unknownEnv_fetch:
  "fetchBatches unknownEnv Map.empty [''AAAAAAAAAAA''] = Inr [withFromCache unknownData False]"
  using fetchBatches_single [of "[''AAAAAAAAAAA'']" unknownEnv
          "Some [itemOf ''AAAAAAAAAAA'' None (Some ''PT5M'')]" Map.empty]
  by (simp add: unknownEnv_record) (simp add: unknownEnv_def apiEnv_def silentEnv_def)

lemma publicEnv_fetch_twice:
  "fetchBatches publicEnv Map.empty [''AAAAAAAAAAA'', ''AAAAAAAAAAA'']
     = Inr [withFromCache publicData False, withFromCache publicData False]"
  using fetchBatches_single [of "[''AAAAAAAAAAA'', ''AAAAAAAAAAA'']" publicEnv
          "Some [itemOf ''AAAAAAAAAAA'' (Some ''public'') (Some ''PT5M'')]" Map.empty]
  by (simp add: publicEnv_record) (simp add: publicEnv_def apiEnv_def silentEnv_def)

lemma publicData_id: "id' (withFromCache publicData b) = ''AAAAAAAAAAA''"
  by (simp add: withFromCache_id publicData_def)

lemma unknownData_id: "id' (withFromCache unknownData b) = ''AAAAAAAAAAA''"
  by (simp add: withFromCache_id publicData_def unknownData_def)

lemma publicData_status: "status (withFromCache publicData b) = ''public''"
  by (simp add: withFromCache_def publicData_def video_data.defs)

lemma unknownData_status: "status (withFromCache unknownData b) = ''unknown''"
  by (simp add: withFromCache_def publicData_def unknownData_def video_data.defs)

lemma dataToCache_withFromCache: "dataToCache (withFromCache d b) = d"
  by (simp add: withFromCache_def dataToCache_def video_data.defs)

lemma cacheRead_empty: "cacheRead e Map.empty ic ids = ([], ids)"
  by (simp add: cacheRead_def cacheSelect_def map_filter_def)

lemma publicEnv_clock: "dateNowWrite publicEnv = 100000000" "dateNowRead publicEnv = 100000000"
  by (simp_all add: publicEnv_def apiEnv_def silentEnv_def)

lemma unknownEnv_clock: "dateNowWrite unknownEnv = 100000000" "dateNowRead unknownEnv = 100000000"
  by (simp_all add: unknownEnv_def apiEnv_def silentEnv_def)

text \<open>The three concrete runs used below.\<close>

lemma publicEnv_run_ignoring:
  "resolveStatuses publicEnv Map.empty True Map.empty [''AAAAAAAAAAA'']
     = (Inr [withFromCache publicData False], Map.empty)"
  by (simp add: resolveStatuses_unfold cacheRead_empty publicEnv_fetch sortedResults_def
        resultMap_def jsMap_def publicData_id cacheWrite_def)

lemma publicEnv_run:
  "resolveStatuses publicEnv Map.empty False Map.empty [''AAAAAAAAAAA'']
     = (Inr [withFromCache publicData False],
        [''AAAAAAAAAAA'' \<mapsto> \<lparr> data = publicData, cached_at = 100000000 \<rparr>])"
  by (simp add: resolveStatuses_unfold cacheRead_empty publicEnv_fetch sortedResults_def
        resultMap_def jsMap_def publicData_id cacheWrite_def cachePayload_def upsert_def
        publicData_status isDefinitive_def dataToCache_withFromCache publicEnv_clock)

lemma unknownEnv_run:
  "resolveStatuses unknownEnv c False Map.empty [''AAAAAAAAAAA'']
     = (Inr [withFromCache unknownData False], c)" if "c ''AAAAAAAAAAA'' = None"
proof -
  have "cacheSelect c [''AAAAAAAAAAA''] t = []" for t
    using that by (simp add: cacheSelect_def jsSet_def addAll_def setAdd_def)
  then have "cacheRead unknownEnv c False [''AAAAAAAAAAA''] = ([], [''AAAAAAAAAAA''])"
    by (simp add: cacheRead_def)
  then show ?thesis
    by (simp add: resolveStatuses_unfold unknownEnv_fetch sortedResults_def
        resultMap_def jsMap_def unknownData_id cacheWrite_def cachePayload_def
        unknownData_status isDefinitive_def)
qed


subsection \<open>Requests that ignore the cache\<close>

text \<open>
  C10. A request with \<^verbatim>\<open>ignoreCache\<close> set leaves the cache as it was, whatever the
  outcome, and none of the results it returns is marked as coming from the cache.
\<close>

theorem ignoreCache_leaves_cache:
  assumes "req_ignoreCache req"
  shows "snd (handler e c req) = c
         \<and> (\<forall>rs. fst (handler e c req) = Inr rs \<longrightarrow> (\<forall>r \<in> set rs. \<not> fromCache r))"
proof -
  have res: "snd (resolveStatuses e c True vt ids) = c
             \<and> (\<forall>rs. fst (resolveStatuses e c True vt ids) = Inr rs
                   \<longrightarrow> (\<forall>r \<in> set rs. \<not> fromCache r))" for vt ids
  proof (cases "fetchBatches e vt ids")
    case (Inl err)
    then show ?thesis
      by (simp add: resolveStatuses_unfold cacheRead_ignore)
  next
    case (Inr fresh)
    then show ?thesis
      using fetchBatches_ok [OF Inr]
      by (auto simp: resolveStatuses_unfold cacheRead_ignore cacheWrite_def
               dest!: sortedResults_subset)
  qed
  show ?thesis
    using assms res
    by (auto simp: handler_def split: sum.splits prod.splits)
qed

lemma freshRequest_collect:
  "collectVideoIds e freshRequest = Inr ([''AAAAAAAAAAA''], Map.empty)"
  by (simp add: collectVideoIds_def freshRequest_def suppliedIds_def orElse_def)

lemma publicEnv_key: "orElse (YOUTUBE_API_KEY publicEnv) [] \<noteq> []"
  by (simp add: publicEnv_def apiEnv_def silentEnv_def orElse_def)

theorem ignoreCache_leaves_cache_witness:
  "req_ignoreCache freshRequest
   \<and> handler publicEnv Map.empty freshRequest = (Inr [withFromCache publicData False], Map.empty)
   \<and> \<not> fromCache (withFromCache publicData False)"
proof -
  have r: "req_ignoreCache freshRequest" by (simp add: freshRequest_def)
  have h: "handler publicEnv Map.empty freshRequest
             = (Inr [withFromCache publicData False], Map.empty)"
    using publicEnv_key
    by (simp add: handler_def freshRequest_collect r publicEnv_run_ignoring)
  from ignoreCache_leaves_cache [OF r, of publicEnv Map.empty] h r show ?thesis by simp
qed

subsection \<open>The cache write\<close>

lemma cacheWrite_upsert: "cacheWrite e c False fresh = upsert c (cachePayload e fresh)"
  by (auto simp: cacheWrite_def Let_def upsert_def cachePayload_def)

lemma cachePayload_snoc:
  "cachePayload e (rs @ [r]) =
     (if isDefinitive (status r)
      then cachePayload e rs @ [(id' r, \<lparr> data = dataToCache r, cached_at = dateNowWrite e \<rparr>)]
      else cachePayload e rs)"
  by (simp add: cachePayload_def)

lemma upsert_Nil: "upsert c [] = c"
  by (simp add: upsert_def)

text \<open>The row of a key after the write holds the last result of that key, if definitive.\<close>

lemma upsert_written:
  "resultMap fresh k = Some r \<Longrightarrow> isDefinitive (status r) \<Longrightarrow>
     upsert c (cachePayload e fresh) k = Some \<lparr> data = dataToCache r, cached_at = dateNowWrite e \<rparr>"
proof (induction fresh rule: rev_induct)
  case Nil
  then show ?case by (simp add: resultMap_Nil)
next
  case (snoc x xs)
  show ?case
  proof (cases "id' x = k")
    case True
    with snoc.prems have "r = x" by (simp add: resultMap_snoc)
    with True snoc.prems(2) show ?thesis
      by (simp add: cachePayload_snoc upsert_snoc)
  next
    case False
    with snoc.prems have "resultMap xs k = Some r" by (simp add: resultMap_snoc)
    with snoc.IH snoc.prems(2)
    have "upsert c (cachePayload e xs) k
            = Some \<lparr> data = dataToCache r, cached_at = dateNowWrite e \<rparr>" by simp
    with False show ?thesis
      by (simp add: cachePayload_snoc upsert_snoc)
  qed
qed

lemma upsert_untouched:
  "\<forall>r \<in> set fresh. id' r = k \<longrightarrow> \<not> isDefinitive (status r) \<Longrightarrow>
     upsert c (cachePayload e fresh) k = c k"
proof (induction fresh rule: rev_induct)
  case Nil
  show ?case by (simp add: cachePayload_def upsert_Nil)
next
  case (snoc x xs)
  then have ih: "upsert c (cachePayload e xs) k = c k" by simp
  from snoc.prems have "id' x = k \<longrightarrow> \<not> isDefinitive (status x)" by simp
  with ih show ?case
    by (simp add: cachePayload_snoc upsert_snoc)
qed

lemma upsert_origin:
  "upsert c (cachePayload e fresh) k = Some row \<Longrightarrow>
     c k = Some row \<or>
     (\<exists>r \<in> set fresh. isDefinitive (status r) \<and> id' r = k
        \<and> row = \<lparr> data = dataToCache r, cached_at = dateNowWrite e \<rparr>)"
proof (induction fresh rule: rev_induct)
  case Nil
  then show ?case by (simp add: cachePayload_def upsert_Nil)
next
  case (snoc x xs)
  show ?case
  proof (cases "isDefinitive (status x) \<and> id' x = k")
    case True
    with snoc.prems have "row = \<lparr> data = dataToCache x, cached_at = dateNowWrite e \<rparr>"
      by (simp add: cachePayload_snoc upsert_snoc)
    with True show ?thesis by auto
  next
    case False
    with snoc.prems have "upsert c (cachePayload e xs) k = Some row"
      by (simp add: cachePayload_snoc upsert_snoc split: if_splits)
    from snoc.IH [OF this] show ?thesis by auto
  qed
qed

text \<open>A batch call that fails ends the request with an error and no cache write.\<close>

lemma failed_batch_leaves_cache:
  "fetchBatches e videoTypes (snd (cacheRead e c ic allVideoIds)) = Inl err \<Longrightarrow>
     allVideoIds \<noteq> [] \<Longrightarrow>
     resolveStatuses e c ic videoTypes allVideoIds = (Inl err, c)"
  by (simp add: resolveStatuses_unfold)

text \<open>
  C3, as amended. In a run that uses the cache, resolves a list of distinct ids and in
  which every batch call succeeds, the cache after the run holds, for each looked-up
  record with a definitive status, that record under its id, stamped with the time of
  the write, whatever row the id had before; every other key keeps its row, so a record
  with another status is not stored. The write happens once, after the last batch.
\<close>

theorem definitive_fresh_records_upserted:
  assumes "fetchBatches e videoTypes (snd (cacheRead e c False allVideoIds)) = Inr freshResults"
    and "distinct allVideoIds"
  shows "(\<forall>r \<in> set freshResults. isDefinitive (status r) \<longrightarrow>
            snd (resolveStatuses e c False videoTypes allVideoIds) (id' r)
              = Some \<lparr> data = dataToCache r, cached_at = dateNowWrite e \<rparr>)
         \<and> (\<forall>k. (\<forall>r \<in> set freshResults. id' r = k \<longrightarrow> \<not> isDefinitive (status r)) \<longrightarrow>
              snd (resolveStatuses e c False videoTypes allVideoIds) k = c k)"
proof (cases "allVideoIds = []")
  case True
  with assms(1) have "freshResults = []"
    by (simp add: cacheRead_Nil fetchBatches_Nil)
  with True show ?thesis by (simp add: resolveStatuses_unfold)
next
  case False
  have w: "snd (resolveStatuses e c False videoTypes allVideoIds)
             = upsert c (cachePayload e freshResults)"
    using False assms(1) by (simp add: resolveStatuses_unfold cacheWrite_upsert)
  have d: "distinct (map id' freshResults)"
    using fetchBatches_ok [OF assms(1)] cacheRead_toFetch_distinct [OF assms(2)] by simp
  have u: "resultMap freshResults (id' r) = Some r" if "r \<in> set freshResults" for r
  proof -
    have "\<forall>r' \<in> set freshResults. id' r' = id' r \<longrightarrow> r' = r"
      using d that by (auto simp: distinct_map inj_on_def)
    with that show ?thesis by (rule resultMap_unique)
  qed
  show ?thesis
    unfolding w
  proof (intro conjI ballI impI allI)
    fix r assume "r \<in> set freshResults" "isDefinitive (status r)"
    then show "upsert c (cachePayload e freshResults) (id' r)
                 = Some \<lparr> data = dataToCache r, cached_at = dateNowWrite e \<rparr>"
      using u upsert_written by blast
  next
    fix k assume "\<forall>r \<in> set freshResults. id' r = k \<longrightarrow> \<not> isDefinitive (status r)"
    then show "upsert c (cachePayload e freshResults) k = c k"
      by (rule upsert_untouched)
  qed
qed

theorem definitive_fresh_records_upserted_witness:
  "snd (resolveStatuses publicEnv Map.empty False Map.empty [''AAAAAAAAAAA'']) ''AAAAAAAAAAA''
     = Some \<lparr> data = publicData, cached_at = 100000000 \<rparr>
   \<and> snd (resolveStatuses publicEnv Map.empty False Map.empty [''AAAAAAAAAAA'']) ''BBBBBBBBBBB''
     = None"
proof -
  have f: "fetchBatches publicEnv Map.empty
             (snd (cacheRead publicEnv Map.empty False [''AAAAAAAAAAA'']))
           = Inr [withFromCache publicData False]"
    by (simp add: cacheRead_empty publicEnv_fetch)
  have d: "distinct [''AAAAAAAAAAA'']" by simp
  from definitive_fresh_records_upserted [OF f d]
  show ?thesis
    by (simp add: publicData_id publicData_status isDefinitive_def dataToCache_withFromCache
          publicEnv_clock)
qed

text \<open>
  C3 as stated fails: in a run that ignores the cache, the looked-up record is
  \<^verbatim>\<open>public\<close> and the cache stays empty.
\<close>

theorem definitive_record_not_upserted_counterexample:
  "fst (resolveStatuses publicEnv Map.empty True Map.empty [''AAAAAAAAAAA''])
     = Inr [withFromCache publicData False]
   \<and> status (withFromCache publicData False) = ''public''
   \<and> snd (resolveStatuses publicEnv Map.empty True Map.empty [''AAAAAAAAAAA'']) ''AAAAAAAAAAA''
     = None"
  by (simp add: publicEnv_run_ignoring publicData_status)

subsection \<open>Merging the listings of a channel\<close>

lemma tagAll_eq:
  "tagAll t (s, m) ids = (addAll s ids, (\<lambda>k. if k \<in> set ids then Some t else m k))"
proof (induction ids arbitrary: s m)
  case Nil
  show ?case by (simp add: tagAll_def addAll_def)
next
  case (Cons i ids)
  have "tagAll t (s, m) (i # ids) = tagAll t (setAdd s i, m(i \<mapsto> t)) ids"
    by (simp add: tagAll_def)
  also have "\<dots> = (addAll (setAdd s i) ids,
                     (\<lambda>k. if k \<in> set ids then Some t else (m(i \<mapsto> t)) k))"
    by (rule Cons.IH)
  finally show ?case by (auto simp: addAll_def fun_eq_iff)
qed

text \<open>
  The ids of the three sources in the order of their first occurrence; the hint of an
  id is \<^verbatim>\<open>short\<close> when the shorts listing has it, else \<^verbatim>\<open>video\<close> when the videos
  listing has it, else none.
\<close>

lemma mergeListings_eq:
  "mergeListings vs ss as =
     (jsSet (vs @ ss @ as),
      (\<lambda>k. if k \<in> set ss then Some Short else if k \<in> set vs then Some Video else None))"
  by (simp add: mergeListings_def tagAll_eq Let_def jsSet_def addAll_def fun_eq_iff)

lemma count_list_distinct: "distinct xs \<Longrightarrow> x \<in> set xs \<Longrightarrow> count_list xs x = 1"
  by (induction xs) auto

text \<open>
  C1, as amended. An id that the scraper finds in the videos listing and in the shorts
  listing of a channel is in the discovery result exactly once, and its hint is
  \<^verbatim>\<open>short\<close>: the shorts listing is processed second and assigns its type to every id
  it holds.
\<close>

theorem listed_twice_once_and_short:
  assumes "i \<in> set (videoIds (scrapeWithAggressivePagination e
                                  (fst (normalizeChannelUrls channelInput))))"
    and "i \<in> set (videoIds (scrapeWithAggressivePagination e
                                (snd (normalizeChannelUrls channelInput))))"
  shows "\<exists>ids types. scrapeChannelContent e channelInput = Returns (ids, types)
           \<and> count_list ids i = 1 \<and> types i = Some Short"
proof -
  obtain videosUrl shortsUrl where n: "normalizeChannelUrls channelInput = (videosUrl, shortsUrl)"
    by (cases "normalizeChannelUrls channelInput")
  have "count_list (jsSet (xs @ ys @ zs)) i = 1" if "i \<in> set xs" for xs ys zs :: "string list"
    using that by (simp add: count_list_distinct distinct_jsSet set_jsSet)
  with assms n show ?thesis
    by (simp add: scrapeChannelContent_def Let_def mergeListings_eq)
qed

lemma listingEnv_scrape:
  "scrapeWithAggressivePagination listingEnv url
     = \<lparr> videoIds = [''AAAAAAAAAAA''], tokenRefreshes = 0 \<rparr>"
  by (simp add: scrapeWithAggressivePagination_def scrapeWithPager_def scrapePageContent_def
        fetchPageHtml_def listingEnv_def silentEnv_def addAll_def setAdd_def)

lemma listingEnv_additional:
  "tryAdditionalChannelMethods listingEnv channelInput = [''AAAAAAAAAAA'']"
proof -
  have "scrapePageContent listingEnv t url = [''AAAAAAAAAAA'']" for t url
    by (simp add: scrapePageContent_def listingEnv_def silentEnv_def)
  then show ?thesis
    by (simp add: tryAdditionalChannelMethods_def enumerate_eq_zip upt_rec addAll_def setAdd_def)
qed

theorem listed_twice_once_and_short_witness:
  "''AAAAAAAAAAA'' \<in> set (videoIds (scrapeWithAggressivePagination listingEnv
       (fst (normalizeChannelUrls ''@example''))))
   \<and> ''AAAAAAAAAAA'' \<in> set (videoIds (scrapeWithAggressivePagination listingEnv
       (snd (normalizeChannelUrls ''@example''))))
   \<and> (\<exists>ids types. scrapeChannelContent listingEnv ''@example'' = Returns (ids, types)
         \<and> count_list ids ''AAAAAAAAAAA'' = 1 \<and> types ''AAAAAAAAAAA'' = Some Short)"
  using listed_twice_once_and_short [of "''AAAAAAAAAAA''" listingEnv "''@example''"]
  by (simp add: listingEnv_scrape)

text \<open>
  C1 as stated fails: the one video of the channel is in both listings, and its hint
  is that of the shorts listing, which is processed second.
\<close>

theorem hint_of_last_listing_counterexample:
  "videoIds (scrapeWithAggressivePagination listingEnv ''https://www.youtube.com/@example/videos'')
     = [''AAAAAAAAAAA'']
   \<and> videoIds (scrapeWithAggressivePagination listingEnv ''https://www.youtube.com/@example/shorts'')
     = [''AAAAAAAAAAA'']
   \<and> normalizeChannelUrls ''@example''
     = (''https://www.youtube.com/@example/videos'', ''https://www.youtube.com/@example/shorts'')
   \<and> scrapeChannelContent listingEnv ''@example''
     = Returns (mergeListings [''AAAAAAAAAAA''] [''AAAAAAAAAAA''] [''AAAAAAAAAAA''])
   \<and> fst (mergeListings [''AAAAAAAAAAA''] [''AAAAAAAAAAA''] [''AAAAAAAAAAA'']) = [''AAAAAAAAAAA'']
   \<and> snd (mergeListings [''AAAAAAAAAAA''] [''AAAAAAAAAAA''] [''AAAAAAAAAAA'']) ''AAAAAAAAAAA''
     = Some Short"
proof -
  have n: "normalizeChannelUrls ''@example''
     = (''https://www.youtube.com/@example/videos'', ''https://www.youtube.com/@example/shorts'')"
    by (simp add: normalizeChannelUrls_def startsWith_def trim_def isSpace_def)
  have m: "fst (mergeListings [''AAAAAAAAAAA''] [''AAAAAAAAAAA''] [''AAAAAAAAAAA''])
             = [''AAAAAAAAAAA'']"
    by (simp add: mergeListings_eq jsSet_def addAll_def setAdd_def)
  have h: "snd (mergeListings [''AAAAAAAAAAA''] [''AAAAAAAAAAA''] [''AAAAAAAAAAA''])
             ''AAAAAAAAAAA'' = Some Short"
    by (simp add: mergeListings_eq)
  have c: "scrapeChannelContent listingEnv ''@example''
             = Returns (mergeListings [''AAAAAAAAAAA''] [''AAAAAAAAAAA''] [''AAAAAAAAAAA''])"
    by (simp add: listingEnv_scrape scrapeChannelContent_def n listingEnv_additional)
  from n m h c show ?thesis
    by (simp add: listingEnv_scrape)
qed

subsection \<open>Pagination\<close>

text \<open>However the \<^verbatim>\<open>try\<close> block of an iteration ends, the set only grows.\<close>

lemma tryBody_grows:
  "tryBody p all tok pc = Break ids \<or> tryBody p all tok pc = Continue ids nxt
     \<or> tryBody p all tok pc = Caught ids
   \<Longrightarrow> set all \<subseteq> set ids \<and> (distinct all \<longrightarrow> distinct ids)"
  by (auto simp: tryBody_def Let_def set_addAll distinct_addAll
           split: outcome.splits if_splits)

text \<open>
  From a state of the loop on, the refreshes attempted are at most those so far plus
  the iterations left with a page counter below 3, and the ids of the state are among
  those returned.
\<close>

lemma paginate_bounds:
  "tokenRefreshes (paginate p all tok pc r) \<le> r + (2 - pc)
   \<and> set all \<subseteq> set (videoIds (paginate p all tok pc r))
   \<and> (distinct all \<longrightarrow> distinct (videoIds (paginate p all tok pc r)))"
proof (induction p all tok pc r rule: paginate.induct)
  case (1 p allVideoIds continuationToken pageCount refreshes)
  show ?case
  proof (cases continuationToken)
    case None
    then show ?thesis by (simp add: paginate.simps)
  next
    case (Some token)
    show ?thesis
    proof (cases "token \<noteq> [] \<and> pageCount < maxPages")
      case False
      with Some show ?thesis by (subst (1 2 3) paginate.simps) auto
    next
      case True
      show ?thesis
      proof (cases "tryBody p allVideoIds token (pageCount + 1)")
        case (Break ids)
        with Some True tryBody_grows [of p allVideoIds token "pageCount + 1" ids]
        show ?thesis by (subst (1 2 3) paginate.simps) auto
      next
        case (Continue ids nextToken)
        note ih = "1.IH"(1) [OF Some True Continue]
        from Continue tryBody_grows [of p allVideoIds token "pageCount + 1" ids nextToken]
        have g: "set allVideoIds \<subseteq> set ids" "distinct allVideoIds \<longrightarrow> distinct ids" by auto
        have eq: "paginate p allVideoIds continuationToken pageCount refreshes
                  = paginate p ids nextToken (pageCount + 1) refreshes"
          using Some True Continue by (subst paginate.simps) simp
        show ?thesis unfolding eq using ih g by auto
      next
        case (Caught ids)
        from Caught tryBody_grows [of p allVideoIds token "pageCount + 1" ids]
        have g: "set allVideoIds \<subseteq> set ids" "distinct allVideoIds \<longrightarrow> distinct ids" by auto
        show ?thesis
        proof (cases "pageCount + 1 < 3")
          case False
          with Some True Caught g show ?thesis by (subst (1 2 3) paginate.simps) auto
        next
          case lt: True
          show ?thesis
          proof (cases "refreshStep p (pageCount + 1)")
            case Throws
            with Some True Caught g lt show ?thesis by (subst (1 2 3) paginate.simps) auto
          next
            case (Returns refreshed)
            show ?thesis
            proof (cases refreshed)
              case None
              with Returns Some True Caught g lt show ?thesis
                by (subst (1 2 3) paginate.simps) auto
            next
              case (Some t)
              show ?thesis
              proof (cases "t = []")
                case True
                with Some Returns \<open>continuationToken = Some token\<close>
                  \<open>token \<noteq> [] \<and> pageCount < maxPages\<close> Caught g lt show ?thesis
                  by (subst (1 2 3) paginate.simps) auto
              next
                case False
                note ih = "1.IH"(2) [OF \<open>continuationToken = Some token\<close>
                  \<open>token \<noteq> [] \<and> pageCount < maxPages\<close> Caught lt Returns Some False]
                have eq: "paginate p allVideoIds continuationToken pageCount refreshes
                  = paginate p ids (Some t) (pageCount + 1) (refreshes + 1)"
                  using \<open>continuationToken = Some token\<close>
                    \<open>token \<noteq> [] \<and> pageCount < maxPages\<close> Caught lt Returns Some False
                  by (subst paginate.simps) simp
                show ?thesis unfolding eq using ih g lt by auto
              qed
            qed
          qed
        qed
      qed
    qed
  qed
qed

text \<open>
  An exception on the third page or later ends the pagination at once, without a
  refresh.
\<close>

lemma late_error_gives_up:
  assumes "token \<noteq> []" and "pageCount < maxPages" and "2 \<le> pageCount"
    and "tryBody p allVideoIds token (pageCount + 1) = Caught ids"
  shows "paginate p allVideoIds (Some token) pageCount refreshes
           = \<lparr> videoIds = ids, tokenRefreshes = refreshes \<rparr>"
  using assms by (subst paginate.simps) simp

text \<open>
  The scraper's own page fetch and alternative continuation absorb every failed
  request, so its \<^verbatim>\<open>try\<close> block does not throw and it attempts no refresh.
\<close>

lemma paginate_without_throw:
  "\<forall>pc tok. pageStep p pc tok \<noteq> Throws \<Longrightarrow> \<forall>pc tok. altStep p pc tok \<noteq> Throws \<Longrightarrow>
     tokenRefreshes (paginate p all tok pc r) = r"
proof (induction p all tok pc r rule: paginate.induct)
  case (1 p allVideoIds continuationToken pageCount refreshes)
  have nc: "tryBody p allVideoIds token (pageCount + 1) \<noteq> Caught ids" for token ids
    using "1.prems"
    by (auto simp: tryBody_def Let_def split: outcome.splits)
  show ?case
  proof (cases continuationToken)
    case None
    then show ?thesis by (simp add: paginate.simps)
  next
    case (Some token)
    show ?thesis
    proof (cases "token \<noteq> [] \<and> pageCount < maxPages")
      case False
      with Some show ?thesis by (subst paginate.simps) auto
    next
      case True
      show ?thesis
      proof (cases "tryBody p allVideoIds token (pageCount + 1)")
        case (Break ids)
        with Some True show ?thesis by (subst paginate.simps) auto
      next
        case (Continue ids nextToken)
        from "1.IH"(1) [OF Some True Continue "1.prems"] Some True Continue
        show ?thesis by (subst paginate.simps) simp
      next
        case (Caught ids)
        with nc show ?thesis by blast
      qed
    qed
  qed
qed

lemma scraper_attempts_no_refresh:
  "tokenRefreshes (scrapeWithAggressivePagination e url) = 0"
proof -
  have "tokenRefreshes (paginate (pagerOf e url) all tok 0 0) = 0" for all tok
    by (rule paginate_without_throw) (simp_all add: pagerOf_def)
  then show ?thesis
    by (simp add: scrapeWithAggressivePagination_def scrapeWithPager_def split: outcome.splits)
qed

text \<open>A page none of whose requests succeeds comes back empty and without a token.\<close>

lemma tryStrategies_all_failed:
  "\<forall>u. fetchFailed (fetch e Continuation t u) \<Longrightarrow> tryStrategies e t urls = ([], None)"
  by (induction urls) (auto simp: fetchFailed_def split: http_response.splits)

text \<open>
  In the scraper such a page ends the pagination: the alternative continuation is
  tried, and with or without new ids from it the loop is left, the refresh counter as
  it was.
\<close>

lemma failed_page_ends_pagination:
  assumes "token \<noteq> []" and "pageCount < maxPages"
    and "\<forall>u. fetchFailed (fetch e Continuation (pageCount + 1) u)"
  shows "paginate (pagerOf e url) allVideoIds (Some token) pageCount refreshes
           = \<lparr> videoIds = addAll allVideoIds (tryAlternativeContinuation e (pageCount + 1) token),
               tokenRefreshes = refreshes \<rparr>"
proof -
  have p: "fetchPageWithMultipleStrategies e (pageCount + 1) url token = ([], None)"
    unfolding fetchPageWithMultipleStrategies_def using assms(3)
    by (rule tryStrategies_all_failed)
  then have p': "fetchPageWithMultipleStrategies e (Suc pageCount) url token = ([], None)"
    by simp
  let ?alt = "tryAlternativeContinuation e (pageCount + 1) token"
  have t: "tryBody (pagerOf e url) allVideoIds token (pageCount + 1)
             = (if length (addAll allVideoIds ?alt) - length allVideoIds = 0
                then Break (addAll allVideoIds ?alt)
                else Continue (addAll allVideoIds ?alt) None)"
    by (simp add: tryBody_def pagerOf_def p' addAll_Nil Let_def)
  have n: "paginate (pagerOf e url) ids None pc r = \<lparr> videoIds = ids, tokenRefreshes = r \<rparr>"
    for ids pc r
    by (simp add: paginate.simps)
  show ?thesis
    using assms(1,2) t by (subst paginate.simps) (simp add: n)
qed

text \<open>What the \<^verbatim>\<open>catch\<close> of the loop does with an exception of the loop body.\<close>

lemma caught_error_refresh:
  assumes "token \<noteq> []" and "pageCount < maxPages"
    and "tryBody p allVideoIds token (pageCount + 1) = Caught ids"
  shows "paginate p allVideoIds (Some token) pageCount refreshes
           = (if pageCount + 1 < 3 then
                (case refreshStep p (pageCount + 1) of
                   Throws \<Rightarrow> \<lparr> videoIds = ids, tokenRefreshes = refreshes + 1 \<rparr>
                 | Returns refreshed \<Rightarrow>
                     if orElse refreshed [] = []
                     then \<lparr> videoIds = ids, tokenRefreshes = refreshes + 1 \<rparr>
                     else paginate p ids refreshed (pageCount + 1) (refreshes + 1))
              else \<lparr> videoIds = ids, tokenRefreshes = refreshes \<rparr>)"
  using assms
  by (subst paginate.simps)
     (auto simp: orElse_def split: outcome.splits option.splits)

text \<open>
  C8, as amended. A page-level fetch error, every request for the page being rejected
  or not \<^verbatim>\<open>ok\<close>, does not reach the \<^verbatim>\<open>catch\<close> of the loop: the page counts as
  empty, the alternative continuation is tried, and the pagination ends with the ids
  gathered so far and those of the alternative continuation, without a token refresh;
  the scraper never attempts one. A refresh is what the \<^verbatim>\<open>catch\<close> does with an
  exception of the loop body, and only while the page counter is below 3: at most 2
  refreshes in a run, none for an exception on the third page or later. In every case
  the function returns: a list of ids without repetitions that holds the ids of every
  state the loop went through, those of the first page included.
\<close>

theorem page_error_ends_pagination_without_refresh:
  "(token \<noteq> [] \<and> pageCount < maxPages
      \<and> (\<forall>u. fetchFailed (fetch e Continuation (pageCount + 1) u))
    \<longrightarrow> paginate (pagerOf e url) allVideoIds (Some token) pageCount refreshes
          = \<lparr> videoIds = addAll allVideoIds (tryAlternativeContinuation e (pageCount + 1) token),
              tokenRefreshes = refreshes \<rparr>)
   \<and> tokenRefreshes (scrapeWithAggressivePagination e url) = 0
   \<and> (token \<noteq> [] \<and> pageCount < maxPages
        \<and> tryBody p allVideoIds token (pageCount + 1) = Caught ids
      \<longrightarrow> paginate p allVideoIds (Some token) pageCount refreshes
            = (if pageCount + 1 < 3 then
                 (case refreshStep p (pageCount + 1) of
                    Throws \<Rightarrow> \<lparr> videoIds = ids, tokenRefreshes = refreshes + 1 \<rparr>
                  | Returns refreshed \<Rightarrow>
                      if orElse refreshed [] = []
                      then \<lparr> videoIds = ids, tokenRefreshes = refreshes + 1 \<rparr>
                      else paginate p ids refreshed (pageCount + 1) (refreshes + 1))
               else \<lparr> videoIds = ids, tokenRefreshes = refreshes \<rparr>))
   \<and> tokenRefreshes (scrapeWithPager p initialResults initialToken) \<le> 2
   \<and> set allVideoIds \<subseteq> set (videoIds (paginate p allVideoIds continuationToken pageCount refreshes))
   \<and> set initialResults \<subseteq> set (videoIds (scrapeWithPager p initialResults initialToken))
   \<and> distinct (videoIds (scrapeWithPager p initialResults initialToken))
   \<and> set (scrapePageContent e 0 url) \<subseteq> set (videoIds (scrapeWithAggressivePagination e url))
   \<and> distinct (videoIds (scrapeWithAggressivePagination e url))"
proof -
  have g: "tokenRefreshes (scrapeWithPager q xs t) \<le> 2
           \<and> set xs \<subseteq> set (videoIds (scrapeWithPager q xs t))
           \<and> distinct (videoIds (scrapeWithPager q xs t))" for q xs t
  proof (cases t)
    case Throws
    then show ?thesis
      by (simp add: scrapeWithPager_def set_addAll distinct_addAll)
  next
    case (Returns tok)
    have d: "distinct (addAll [] xs)" by (simp add: distinct_addAll)
    from paginate_bounds [of q "addAll [] xs" tok 0 0] d Returns show ?thesis
      by (simp add: scrapeWithPager_def set_addAll)
  qed
  have s: "set (scrapePageContent e 0 url) \<subseteq> set (videoIds (scrapeWithAggressivePagination e url))
           \<and> distinct (videoIds (scrapeWithAggressivePagination e url))"
    using g [of "pagerOf e url" "scrapePageContent e 0 url"]
    by (simp add: scrapeWithAggressivePagination_def)
  have m: "set allVideoIds
             \<subseteq> set (videoIds (paginate p allVideoIds continuationToken pageCount refreshes))"
    using paginate_bounds [of p allVideoIds continuationToken pageCount refreshes] by simp
  from failed_page_ends_pagination [of token pageCount e url allVideoIds refreshes]
       scraper_attempts_no_refresh [of e url]
       caught_error_refresh [of token pageCount p allVideoIds ids refreshes]
       g [of p initialResults initialToken] m s
  show ?thesis by blast
qed

lemma throwingPager_run:
  "scrapeWithPager throwingPager [''AAAAAAAAAAA''] (Returns (Some ''starttoken00''))
     = \<lparr> videoIds = [''AAAAAAAAAAA''], tokenRefreshes = 2 \<rparr>"
proof -
  have t: "tryBody throwingPager ids tok pc = Caught ids" for ids tok pc
    by (simp add: tryBody_def throwingPager_def)
  have r: "refreshStep throwingPager pc = Returns (Some ''freshtoken00'')" for pc
    by (simp add: throwingPager_def)
  have p2: "paginate throwingPager [''AAAAAAAAAAA''] (Some ''freshtoken00'') 2 2
              = \<lparr> videoIds = [''AAAAAAAAAAA''], tokenRefreshes = 2 \<rparr>"
    by (rule late_error_gives_up) (simp_all add: maxPages_def t)
  have p1: "paginate throwingPager [''AAAAAAAAAAA''] (Some ''freshtoken00'') 1 1
              = paginate throwingPager [''AAAAAAAAAAA''] (Some ''freshtoken00'') 2 2"
    by (subst paginate.simps) (simp add: maxPages_def t r numeral_2_eq_2)
  have p0: "paginate throwingPager [''AAAAAAAAAAA''] (Some ''starttoken00'') 0 0
              = paginate throwingPager [''AAAAAAAAAAA''] (Some ''freshtoken00'') 1 1"
    by (subst paginate.simps) (simp add: maxPages_def t r)
  have a: "addAll [] [''AAAAAAAAAAA''] = [''AAAAAAAAAAA'']"
    by (simp add: addAll_def setAdd_def)
  show ?thesis
    by (simp only: scrapeWithPager_def Let_def a outcome.case p0 p1 p2)
qed

lemma brokenPagesEnv_failed: "fetchFailed (fetch brokenPagesEnv Continuation t u)"
  by (simp add: brokenPagesEnv_def silentEnv_def fetchFailed_def)

lemma brokenPagesEnv_alternative: "tryAlternativeContinuation brokenPagesEnv t token = []"
  by (simp add: tryAlternativeContinuation_def brokenPagesEnv_def silentEnv_def)

lemma brokenPagesEnv_run:
  "scrapeWithAggressivePagination brokenPagesEnv url
     = \<lparr> videoIds = [''AAAAAAAAAAA''], tokenRefreshes = 0 \<rparr>"
proof -
  have i: "scrapePageContent brokenPagesEnv 0 url = [''AAAAAAAAAAA'']"
    by (simp add: scrapePageContent_def brokenPagesEnv_def silentEnv_def)
  have h: "fetchPageHtml brokenPagesEnv 0 url = Returns ''page''"
    by (simp add: fetchPageHtml_def brokenPagesEnv_def silentEnv_def)
  have k: "extractContinuationToken brokenPagesEnv ''page'' = Some ''starttoken00''"
    by (simp add: brokenPagesEnv_def silentEnv_def)
  have a: "addAll [] [''AAAAAAAAAAA''] = [''AAAAAAAAAAA'']"
    by (simp add: addAll_def setAdd_def)
  have p: "paginate (pagerOf brokenPagesEnv url) [''AAAAAAAAAAA''] (Some ''starttoken00'') 0 0
             = \<lparr> videoIds = addAll [''AAAAAAAAAAA'']
                               (tryAlternativeContinuation brokenPagesEnv (0 + 1) ''starttoken00''),
                 tokenRefreshes = 0 \<rparr>"
    by (rule failed_page_ends_pagination) (simp_all add: maxPages_def brokenPagesEnv_failed)
  show ?thesis
    by (simp add: scrapeWithAggressivePagination_def scrapeWithPager_def i h k a p
          brokenPagesEnv_alternative addAll_Nil)
qed

theorem page_error_ends_pagination_without_refresh_witness:
  "paginate (pagerOf brokenPagesEnv ''https://www.youtube.com/@example/videos'')
       [''AAAAAAAAAAA''] (Some ''starttoken00'') 0 0
     = \<lparr> videoIds = [''AAAAAAAAAAA''], tokenRefreshes = 0 \<rparr>
   \<and> paginate throwingPager [''AAAAAAAAAAA''] (Some ''freshtoken00'') 2 2
     = \<lparr> videoIds = [''AAAAAAAAAAA''], tokenRefreshes = 2 \<rparr>
   \<and> paginate throwingPager [''AAAAAAAAAAA''] (Some ''starttoken00'') 0 0
     = paginate throwingPager [''AAAAAAAAAAA''] (Some ''freshtoken00'') 1 1"
proof -
  have t: "tryBody throwingPager ids tok pc = Caught ids" for ids tok pc
    by (simp add: tryBody_def throwingPager_def)
  have r: "refreshStep throwingPager pc = Returns (Some ''freshtoken00'')" for pc
    by (simp add: throwingPager_def)
  have f: "\<forall>u. fetchFailed (fetch brokenPagesEnv Continuation (0 + 1) u)"
    by (simp add: brokenPagesEnv_failed)
  from page_error_ends_pagination_without_refresh
         [of "''starttoken00''" 0 brokenPagesEnv "''https://www.youtube.com/@example/videos''"
             "[''AAAAAAAAAAA'']" 0 throwingPager "[''AAAAAAAAAAA'']"]
       f t [of "[''AAAAAAAAAAA'']" "''starttoken00''" "0 + 1"]
  have a: "paginate (pagerOf brokenPagesEnv ''https://www.youtube.com/@example/videos'')
             [''AAAAAAAAAAA''] (Some ''starttoken00'') 0 0
           = \<lparr> videoIds = [''AAAAAAAAAAA''], tokenRefreshes = 0 \<rparr>"
    and b: "paginate throwingPager [''AAAAAAAAAAA''] (Some ''starttoken00'') 0 0
           = paginate throwingPager [''AAAAAAAAAAA''] (Some ''freshtoken00'') 1 1"
    by (simp_all add: maxPages_def brokenPagesEnv_alternative addAll_Nil r orElse_def)
  from page_error_ends_pagination_without_refresh
         [of "''freshtoken00''" 2 brokenPagesEnv "''https://www.youtube.com/@example/videos''"
             "[''AAAAAAAAAAA'']" 2 throwingPager "[''AAAAAAAAAAA'']"]
       t [of "[''AAAAAAAAAAA'']" "''freshtoken00''" "2 + 1"]
  have c: "paginate throwingPager [''AAAAAAAAAAA''] (Some ''freshtoken00'') 2 2
           = \<lparr> videoIds = [''AAAAAAAAAAA''], tokenRefreshes = 2 \<rparr>"
    by (simp add: maxPages_def)
  from a b c show ?thesis by simp
qed

text \<open>
  C8 as stated fails: every request for the second page is rejected, and the scraper
  returns the id of the first page without having attempted a token refresh; and where
  the loop body itself throws on every page and every refresh brings a token, the
  pagination gives up after the second refresh.
\<close>

theorem page_error_no_refresh_counterexample:
  "fetch brokenPagesEnv Continuation 1
     (''https://www.youtube.com/@example/videos'' @ ''?pbj=1&continuation='' @ ''starttoken00'')
     = FetchThrew
   \<and> fetchPageWithMultipleStrategies brokenPagesEnv 1
       ''https://www.youtube.com/@example/videos'' ''starttoken00'' = ([], None)
   \<and> scrapeWithAggressivePagination brokenPagesEnv ''https://www.youtube.com/@example/videos''
     = \<lparr> videoIds = [''AAAAAAAAAAA''], tokenRefreshes = 0 \<rparr>
   \<and> scrapeWithPager throwingPager [''AAAAAAAAAAA''] (Returns (Some ''starttoken00''))
     = \<lparr> videoIds = [''AAAAAAAAAAA''], tokenRefreshes = 2 \<rparr>"
proof -
  have "fetchPageWithMultipleStrategies brokenPagesEnv 1
          ''https://www.youtube.com/@example/videos'' ''starttoken00'' = ([], None)"
    unfolding fetchPageWithMultipleStrategies_def
    by (rule tryStrategies_all_failed) (simp add: brokenPagesEnv_failed)
  then show ?thesis
    by (simp add: brokenPagesEnv_run throwingPager_run)
       (simp add: brokenPagesEnv_def silentEnv_def)
qed

subsection \<open>The order of the results\<close>

text \<open>Every requested id has a result when the rows served from the cache carry their key.\<close>

lemma all_ids_resolved:
  assumes f: "fetchBatches e vt (snd (cacheRead e c False ids)) = Inr fresh"
    and k: "\<forall>k d. (k, d) \<in> set (cacheSelect c ids (cacheExpiry e)) \<longrightarrow> id' d = k"
    and i: "i \<in> set ids"
  shows "i \<in> id' ` set (fst (cacheRead e c False ids) @ fresh)"
proof (cases "i \<in> fst ` set (cacheSelect c ids (cacheExpiry e))")
  case True
  then obtain d where d: "(i, d) \<in> set (cacheSelect c ids (cacheExpiry e))" by force
  with k have "id' d = i" by blast
  then have "id' (withFromCache d True) = i" by (simp add: withFromCache_id)
  moreover from d have "withFromCache d True \<in> set (fst (cacheRead e c False ids))"
    unfolding cacheRead_fst by force
  ultimately show ?thesis by force
next
  case False
  with i have "i \<in> set (snd (cacheRead e c False ids))"
    unfolding cacheRead_snd by simp
  with fetchBatches_ok [OF f] have "i \<in> set (map id' fresh)" by simp
  then show ?thesis by auto
qed

lemma resolveStatuses_order:
  assumes "resolveStatuses e c ic vt ids = (Inr rs, c')"
  shows "map id' rs = filter (\<lambda>i. i \<in> id' ` set rs) ids"
proof (cases "ids = []")
  case True
  with assms show ?thesis by (simp add: resolveStatuses_unfold)
next
  case False
  with assms obtain fresh where
    rs: "rs = sortedResults ids (fst (cacheRead e c ic ids) @ fresh)"
    by (auto simp: resolveStatuses_unfold split: sum.splits)
  have "filter (\<lambda>i. i \<in> id' ` set (fst (cacheRead e c ic ids) @ fresh)) ids
          = filter (\<lambda>i. i \<in> id' ` set rs) ids"
    unfolding rs by (rule filter_cong [OF refl]) (simp only: sortedResults_image)
  then show ?thesis
    unfolding rs sortedResults_ids by simp
qed

lemma resolveStatuses_complete:
  assumes r: "resolveStatuses e c ic vt ids = (Inr rs, c')"
    and keyed: "\<forall>k row. c k = Some row \<longrightarrow> id' (data row) = k"
  shows "map id' rs = ids"
proof (cases "ids = []")
  case True
  with r show ?thesis by (simp add: resolveStatuses_unfold)
next
  case False
  with r obtain fresh where
    f: "fetchBatches e vt (snd (cacheRead e c ic ids)) = Inr fresh"
    and rs: "rs = sortedResults ids (fst (cacheRead e c ic ids) @ fresh)"
    by (auto simp: resolveStatuses_unfold split: sum.splits)
  have "\<forall>i \<in> set ids. i \<in> id' ` set (fst (cacheRead e c ic ids) @ fresh)"
  proof (cases ic)
    case True
    with f fetchBatches_ok [OF f] show ?thesis
      by (simp add: cacheRead_ignore) (metis list.set_map)
  next
    case False
    have "\<forall>k d. (k, d) \<in> set (cacheSelect c ids (cacheExpiry e)) \<longrightarrow> id' d = k"
      unfolding cacheSelect_iff using keyed by auto
    with all_ids_resolved [of e vt c ids fresh] f False show ?thesis by simp
  qed
  then have "filter (\<lambda>i. i \<in> id' ` set (fst (cacheRead e c ic ids) @ fresh)) ids = ids"
    by (simp only: filter_True)
  then show ?thesis
    unfolding rs sortedResults_ids by simp
qed

lemma collectVideoIds_order:
  assumes "collectVideoIds e req = Inr (ids, vt)"
  shows "(orElse (req_channelUrl req) [] = [] \<longrightarrow> ids = suppliedIds req)
         \<and> (orElse (req_channelUrl req) [] \<noteq> [] \<longrightarrow>
              distinct ids
              \<and> (\<exists>discovered types.
                    discoverChannel e (orElse (req_channelUrl req) []) = Inr (discovered, types)
                    \<and> ids = jsSet (suppliedIds req)
                            @ filter (\<lambda>i. i \<notin> set (suppliedIds req)) (jsSet discovered)))"
proof (cases "orElse (req_channelUrl req) [] = []")
  case True
  with assms show ?thesis by (simp add: collectVideoIds_def)
next
  case False
  with assms obtain discovered types where
    d: "discoverChannel e (orElse (req_channelUrl req) []) = Inr (discovered, types)"
    and ids: "ids = jsSet (suppliedIds req @ discovered)"
    by (auto simp: collectVideoIds_def Let_def split: sum.splits)
  from ids have "distinct ids" by (simp add: distinct_jsSet)
  with False d ids show ?thesis by (simp add: jsSet_append)
qed

text \<open>
  C4, as amended. The results follow the handler's list of ids: the supplied ids as
  they are when no channel is given, otherwise the supplied ids without repetitions
  followed by the channel's ids that were not supplied, in the order of discovery.
  The results are the records of these ids in this order, without the ids that have
  no record; an id occurs in the results as often as in the list, so at most once
  when the list has no repetitions, as is the case with a channel. When every row of
  the cache carries its key as its id, no id is without a record.
\<close>

theorem results_in_request_order:
  assumes "handler e c req = (Inr rs, c')"
  shows "\<exists>ids vt. collectVideoIds e req = Inr (ids, vt)
           \<and> (orElse (req_channelUrl req) [] = [] \<longrightarrow> ids = suppliedIds req)
           \<and> (orElse (req_channelUrl req) [] \<noteq> [] \<longrightarrow>
                distinct ids
                \<and> (\<exists>discovered types.
                      discoverChannel e (orElse (req_channelUrl req) []) = Inr (discovered, types)
                      \<and> ids = jsSet (suppliedIds req)
                              @ filter (\<lambda>i. i \<notin> set (suppliedIds req)) (jsSet discovered)))
           \<and> map id' rs = filter (\<lambda>i. i \<in> id' ` set rs) ids
           \<and> (distinct ids \<longrightarrow> distinct (map id' rs))
           \<and> ((\<forall>k row. c k = Some row \<longrightarrow> id' (data row) = k) \<longrightarrow> map id' rs = ids)"
proof -
  from assms obtain ids vt where
    col: "collectVideoIds e req = Inr (ids, vt)"
    and res: "resolveStatuses e c (req_ignoreCache req) vt ids = (Inr rs, c')"
    by (auto simp: handler_def split: if_splits sum.splits prod.splits)
  have ord: "map id' rs = filter (\<lambda>i. i \<in> id' ` set rs) ids"
    using res by (rule resolveStatuses_order)
  have dis: "distinct ids \<longrightarrow> distinct (map id' rs)"
  proof
    assume "distinct ids"
    then have "distinct (filter (\<lambda>i. i \<in> id' ` set rs) ids)" by simp
    with ord show "distinct (map id' rs)" by simp
  qed
  have com: "(\<forall>k row. c k = Some row \<longrightarrow> id' (data row) = k) \<longrightarrow> map id' rs = ids"
    using resolveStatuses_complete [OF res] by blast
  from col collectVideoIds_order [OF col] ord dis com show ?thesis by blast
qed

text \<open>
  A run with a channel: the supplied id comes first, the discovered one after it.
\<close>

lemma listingEnv_discover:
  "discoverChannel listingEnv ''@example''
     = Inr (mergeListings [''AAAAAAAAAAA''] [''AAAAAAAAAAA''] [''AAAAAAAAAAA''])"
proof -
  have a: "getChannelVideosWithApi listingEnv ''@example'' = Throws"
    by (simp add: getChannelVideosWithApi_def listingEnv_def silentEnv_def)
  have c: "scrapeChannelContent listingEnv ''@example''
             = Returns (mergeListings [''AAAAAAAAAAA''] [''AAAAAAAAAAA''] [''AAAAAAAAAAA''])"
    by (simp add: listingEnv_scrape scrapeChannelContent_def listingEnv_additional
          case_prod_beta)
  show ?thesis by (simp add: discoverChannel_def a c)
qed

lemma channelRequest_collect:
  "collectVideoIds listingEnv channelRequest
     = Inr ([''BBBBBBBBBBB'', ''AAAAAAAAAAA''],
            snd (mergeListings [''AAAAAAAAAAA''] [''AAAAAAAAAAA''] [''AAAAAAAAAAA'']))"
proof -
  have u: "orElse (req_channelUrl channelRequest) [] = ''@example''"
    by (simp add: channelRequest_def orElse_def)
  have s: "suppliedIds channelRequest = [''BBBBBBBBBBB'']"
    by (simp add: channelRequest_def suppliedIds_def)
  have m: "fst (mergeListings [''AAAAAAAAAAA''] [''AAAAAAAAAAA''] [''AAAAAAAAAAA''])
             = [''AAAAAAAAAAA'']"
    by (simp add: mergeListings_eq jsSet_def addAll_def setAdd_def)
  have j: "jsSet [''BBBBBBBBBBB'', ''AAAAAAAAAAA''] = [''BBBBBBBBBBB'', ''AAAAAAAAAAA'']"
    by (simp add: jsSet_distinct)
  show ?thesis
    by (simp add: collectVideoIds_def u s listingEnv_discover m j)
qed

lemma listingEnv_records:
  fixes vt :: "string \<rightharpoonup> content_type"
  assumes "vt ''AAAAAAAAAAA'' = Some Short" and "vt ''BBBBBBBBBBB'' = None"
  shows "processBatchId listingEnv vt
           (apiResultsOf (Some [itemOf ''AAAAAAAAAAA'' (Some ''public'') (Some ''PT5M'')]))
           ''AAAAAAAAAAA'' = withFromCache shortData False"
    and "processBatchId listingEnv vt
           (apiResultsOf (Some [itemOf ''AAAAAAAAAAA'' (Some ''public'') (Some ''PT5M'')]))
           ''BBBBBBBBBBB'' = withFromCache notFoundData False"
  using assms
  by (simp_all add: processBatchId_def apiResultsOf_def jsMap_def itemOf_def orElse_def Let_def
        withFromCache_def publicData_def shortData_def notFoundData_def video_data.defs
        checkMissingVideoStatusViaScraping_def listingEnv_def silentEnv_def)

lemma channelRequest_run:
  "handler listingEnv Map.empty channelRequest
     = (Inr [withFromCache notFoundData False, withFromCache shortData False], Map.empty)"
proof -
  let ?vt = "snd (mergeListings [''AAAAAAAAAAA''] [''AAAAAAAAAAA''] [''AAAAAAAAAAA''])"
  have h: "?vt ''AAAAAAAAAAA'' = Some Short" "?vt ''BBBBBBBBBBB'' = None"
    by (simp_all add: mergeListings_eq)
  have k: "orElse (YOUTUBE_API_KEY listingEnv) [] \<noteq> []"
    by (simp add: listingEnv_def silentEnv_def orElse_def)
  have i: "req_ignoreCache channelRequest" by (simp add: channelRequest_def)
  have ep: "videosEndpoint listingEnv [''BBBBBBBBBBB'', ''AAAAAAAAAAA'']
              = ApiResponse True (Some [itemOf ''AAAAAAAAAAA'' (Some ''public'') (Some ''PT5M'')])"
    by (simp add: listingEnv_def silentEnv_def)
  have f: "fetchBatches listingEnv ?vt [''BBBBBBBBBBB'', ''AAAAAAAAAAA'']
             = Inr [withFromCache notFoundData False, withFromCache shortData False]"
    using fetchBatches_single [OF _ _ ep, of ?vt] listingEnv_records [OF h]
    by simp
  have ia: "id' (withFromCache shortData False) = ''AAAAAAAAAAA''"
    by (simp add: withFromCache_id shortData_def publicData_def)
  have ib: "id' (withFromCache notFoundData False) = ''BBBBBBBBBBB''"
    by (simp add: withFromCache_id notFoundData_def)
  have r: "resolveStatuses listingEnv Map.empty True ?vt [''BBBBBBBBBBB'', ''AAAAAAAAAAA'']
             = (Inr [withFromCache notFoundData False, withFromCache shortData False], Map.empty)"
    by (simp add: resolveStatuses_unfold cacheRead_ignore f sortedResults_def resultMap_def
          jsMap_def ia ib cacheWrite_def)
  from k i show ?thesis
    by (simp add: handler_def channelRequest_collect r)
qed

theorem results_in_request_order_witness:
  "handler listingEnv Map.empty channelRequest
     = (Inr [withFromCache notFoundData False, withFromCache shortData False], Map.empty)
   \<and> suppliedIds channelRequest = [''BBBBBBBBBBB'']
   \<and> map id' [withFromCache notFoundData False, withFromCache shortData False]
     = [''BBBBBBBBBBB'', ''AAAAAAAAAAA'']"
proof -
  have s: "suppliedIds channelRequest = [''BBBBBBBBBBB'']"
    by (simp add: channelRequest_def suppliedIds_def)
  from results_in_request_order [OF channelRequest_run] channelRequest_run s
  show ?thesis
    by (simp add: channelRequest_collect)
qed

text \<open>
  C4 as stated fails: an id that is supplied twice, without a channel, occurs twice
  in the results.
\<close>

theorem supplied_twice_returned_twice_counterexample:
  "fst (handler publicEnv Map.empty twiceRequest)
     = Inr [withFromCache publicData False, withFromCache publicData False]
   \<and> map id' [withFromCache publicData False, withFromCache publicData False]
     = [''AAAAAAAAAAA'', ''AAAAAAAAAAA'']"
proof -
  have c: "collectVideoIds publicEnv twiceRequest
             = Inr ([''AAAAAAAAAAA'', ''AAAAAAAAAAA''], Map.empty)"
    by (simp add: collectVideoIds_def twiceRequest_def suppliedIds_def orElse_def)
  have r: "fst (resolveStatuses publicEnv Map.empty False Map.empty
                  [''AAAAAAAAAAA'', ''AAAAAAAAAAA''])
             = Inr [withFromCache publicData False, withFromCache publicData False]"
    by (simp add: resolveStatuses_unfold cacheRead_empty publicEnv_fetch_twice sortedResults_def
          resultMap_def jsMap_def publicData_id)
  have "\<not> req_ignoreCache twiceRequest" by (simp add: twiceRequest_def)
  with publicEnv_key show ?thesis
    by (simp add: handler_def c r publicData_id)
qed

subsection \<open>Resolving the same list twice\<close>

text \<open>
  C5, as amended. A list of distinct ids is resolved twice with the cache in use, both
  times without error; at the first request none of its ids has a fresh row, the second
  request is not earlier than the first, and the rows written by the first are still
  fresh at the second. Then both requests return a result for every id of the list,
  and at every position where the first result has a definitive status the second
  result is the first with \<^verbatim>\<open>fromCache\<close> set. At every position where the first
  result has another status, the first request leaves the row of the id as it was, and
  the second request looks the id up again: the id is among those it fetches, and its
  second result is a record of the second batch loop, not from the cache.
\<close>

theorem second_resolution_serves_from_cache:
  assumes first: "resolveStatuses e1 c0 False vt1 ids = (Inr rs1, c1)"
    and second: "resolveStatuses e2 c1 False vt2 ids = (Inr rs2, c2)"
    and dist: "distinct ids"
    and stale: "\<forall>i \<in> set ids. \<forall>row. c0 i = Some row \<longrightarrow> cached_at row \<le> cacheExpiry e1"
    and later: "dateNowRead e1 \<le> dateNowRead e2"
    and window: "dateNowRead e2 - 86400000 < dateNowWrite e1"
  shows "length rs1 = length ids \<and> length rs2 = length ids
         \<and> (\<forall>n < length ids. isDefinitive (status (rs1 ! n)) \<longrightarrow>
               rs2 ! n = (rs1 ! n)\<lparr>fromCache := True\<rparr>)
         \<and> (\<forall>n < length ids. \<not> isDefinitive (status (rs1 ! n)) \<longrightarrow>
               c1 (ids ! n) = c0 (ids ! n)
               \<and> ids ! n \<in> set (snd (cacheRead e2 c1 False ids))
               \<and> (\<exists>fresh2. fetchBatches e2 vt2 (snd (cacheRead e2 c1 False ids)) = Inr fresh2
                     \<and> rs2 ! n \<in> set fresh2)
               \<and> id' (rs2 ! n) = ids ! n
               \<and> \<not> fromCache (rs2 ! n))"
proof (cases "ids = []")
  case True
  with first second show ?thesis by (simp add: resolveStatuses_unfold)
next
  case False
  let ?sel1 = "cacheSelect c0 ids (cacheExpiry e1)"
  let ?sel2 = "cacheSelect c1 ids (cacheExpiry e2)"
  have sel1: "?sel1 = []"
  proof (cases ?sel1)
    case Nil
    then show ?thesis .
  next
    case (Cons a as)
    then have "(fst a, snd a) \<in> set ?sel1" by simp
    then have "\<exists>row. c0 (fst a) = Some row \<and> fst a \<in> set ids \<and> cacheExpiry e1 < cached_at row"
      unfolding cacheSelect_iff by blast
    with stale show ?thesis by force
  qed
  have read1: "fst (cacheRead e1 c0 False ids) = []" "snd (cacheRead e1 c0 False ids) = ids"
    by (simp_all add: cacheRead_fst cacheRead_snd sel1)
  from first False read1 obtain fresh1 where
    f1: "fetchBatches e1 vt1 ids = Inr fresh1"
    and rs1: "rs1 = sortedResults ids fresh1"
    and c1: "c1 = upsert c0 (cachePayload e1 fresh1)"
    by (auto simp: resolveStatuses_unfold cacheWrite_upsert split: sum.splits)
  have ids1: "map id' fresh1 = ids" using fetchBatches_ok [OF f1] by simp
  have tot1: "\<forall>i \<in> set ids. i \<in> id' ` set fresh1"
    using ids1 by (metis list.set_map)
  have rs1': "rs1 = map (\<lambda>i. the (resultMap fresh1 i)) ids"
    unfolding rs1 using tot1 by (rule sortedResults_total)
  let ?cached2 = "fst (cacheRead e2 c1 False ids)"
  from second False obtain fresh2 where
    f2: "fetchBatches e2 vt2 (snd (cacheRead e2 c1 False ids)) = Inr fresh2"
    and rs2: "rs2 = sortedResults ids (?cached2 @ fresh2)"
    by (auto simp: resolveStatuses_unfold split: sum.splits)
  have exp: "cacheExpiry e1 \<le> cacheExpiry e2"
    using later by (simp add: cacheExpiry_def)
  have keyed: "\<forall>k d. (k, d) \<in> set ?sel2 \<longrightarrow> id' d = k"
  proof (intro allI impI)
    fix k d assume "(k, d) \<in> set ?sel2"
    then obtain row where k: "k \<in> set ids" and row: "c1 k = Some row"
      and d: "d = data row" and fr: "cacheExpiry e2 < cached_at row"
      unfolding cacheSelect_iff by blast
    from row have "upsert c0 (cachePayload e1 fresh1) k = Some row" by (simp add: c1)
    from upsert_origin [OF this] show "id' d = k"
    proof
      assume "c0 k = Some row"
      with stale k have "cached_at row \<le> cacheExpiry e1" by blast
      with exp fr show ?thesis by simp
    next
      assume "\<exists>r \<in> set fresh1. isDefinitive (status r) \<and> id' r = k
                \<and> row = \<lparr> data = dataToCache r, cached_at = dateNowWrite e1 \<rparr>"
      then show ?thesis using d by (auto simp: dataToCache_id)
    qed
  qed
  have tot2: "\<forall>i \<in> set ids. i \<in> id' ` set (?cached2 @ fresh2)"
    using all_ids_resolved [OF f2 keyed] by blast
  have rs2': "rs2 = map (\<lambda>i. the (resultMap (?cached2 @ fresh2) i)) ids"
    unfolding rs2 using tot2 by (rule sortedResults_total)
  have len: "length rs1 = length ids" "length rs2 = length ids"
    by (simp_all add: rs1' rs2')
  have nth: "rs2 ! n = (rs1 ! n)\<lparr>fromCache := True\<rparr>"
    if nids: "n < length ids" and defn: "isDefinitive (status (rs1 ! n))" for n
  proof -
    let ?k = "ids ! n"
    let ?r = "rs1 ! n"
    from nids have kin: "?k \<in> set ids" by simp
    have r: "?r = the (resultMap fresh1 ?k)" using nids by (simp add: rs1')
    from tot1 kin have "resultMap fresh1 ?k \<noteq> None" by (simp add: resultMap_None)
    with r have rm1: "resultMap fresh1 ?k = Some ?r" by auto
    have row: "c1 ?k = Some \<lparr> data = dataToCache ?r, cached_at = dateNowWrite e1 \<rparr>"
      unfolding c1 using rm1 defn by (rule upsert_written)
    have insel: "?k \<in> fst ` set ?sel2"
      unfolding cacheSelect_keys using kin row window by (simp add: cacheExpiry_def)
    from tot2 kin have "resultMap (?cached2 @ fresh2) ?k \<noteq> None"
      by (simp only: resultMap_None not_not)
    then obtain x where x: "resultMap (?cached2 @ fresh2) ?k = Some x" by blast
    from resultMap_Some [OF x] have xin: "x \<in> set (?cached2 @ fresh2)" and xid: "id' x = ?k"
      by simp_all
    have "x \<notin> set fresh2"
    proof
      assume "x \<in> set fresh2"
      then have "id' x \<in> set (map id' fresh2)" by simp
      with fetchBatches_ok [OF f2] have "id' x \<in> set (snd (cacheRead e2 c1 False ids))" by simp
      with xid insel show False by (simp add: cacheRead_snd)
    qed
    with xin have "x \<in> set ?cached2" by simp
    then obtain k' d where kd: "(k', d) \<in> set ?sel2" and xd: "x = withFromCache d True"
      unfolding cacheRead_fst by force
    from keyed kd have "id' d = k'" by blast
    with xd xid have "k' = ?k" by (simp add: withFromCache_id)
    with kd have "(?k, d) \<in> set ?sel2" by simp
    then have "d = dataToCache ?r"
      unfolding cacheSelect_iff using row by auto
    with xd have "x = ?r\<lparr>fromCache := True\<rparr>" by (simp add: withFromCache_dataToCache)
    moreover have "rs2 ! n = the (resultMap (?cached2 @ fresh2) ?k)"
      using nids by (simp add: rs2')
    ultimately show ?thesis using x by simp
  qed
  have other: "c1 (ids ! n) = c0 (ids ! n)
               \<and> ids ! n \<in> set (snd (cacheRead e2 c1 False ids))
               \<and> (\<exists>fresh2. fetchBatches e2 vt2 (snd (cacheRead e2 c1 False ids)) = Inr fresh2
                     \<and> rs2 ! n \<in> set fresh2)
               \<and> id' (rs2 ! n) = ids ! n
               \<and> \<not> fromCache (rs2 ! n)"
    if nids: "n < length ids" and nondef: "\<not> isDefinitive (status (rs1 ! n))" for n
  proof -
    let ?k = "ids ! n"
    let ?r = "rs1 ! n"
    from nids have kin: "?k \<in> set ids" by simp
    have r: "?r = the (resultMap fresh1 ?k)" using nids by (simp add: rs1')
    from tot1 kin have "resultMap fresh1 ?k \<noteq> None" by (simp add: resultMap_None)
    with r have rm1: "resultMap fresh1 ?k = Some ?r" by auto
    from resultMap_Some [OF rm1] have rin: "?r \<in> set fresh1" and rid: "id' ?r = ?k"
      by simp_all
    have d1: "distinct (map id' fresh1)" using ids1 dist by simp
    have only: "\<forall>x \<in> set fresh1. id' x = ?k \<longrightarrow> \<not> isDefinitive (status x)"
    proof (intro ballI impI)
      fix x assume "x \<in> set fresh1" "id' x = ?k"
      with d1 rin rid have "x = ?r" by (auto simp: distinct_map inj_on_def)
      with nondef show "\<not> isDefinitive (status x)" by simp
    qed
    have kept: "c1 ?k = c0 ?k"
      unfolding c1 using only by (rule upsert_untouched)
    have notsel: "?k \<notin> fst ` set ?sel2"
    proof
      assume "?k \<in> fst ` set ?sel2"
      then obtain row where "c1 ?k = Some row" "cacheExpiry e2 < cached_at row"
        unfolding cacheSelect_keys by blast
      with kept have "c0 ?k = Some row" by simp
      with stale kin have "cached_at row \<le> cacheExpiry e1" by blast
      with exp \<open>cacheExpiry e2 < cached_at row\<close> show False by simp
    qed
    with kin have again: "?k \<in> set (snd (cacheRead e2 c1 False ids))"
      by (simp add: cacheRead_snd)
    from tot2 kin have "resultMap (?cached2 @ fresh2) ?k \<noteq> None"
      by (simp only: resultMap_None not_not)
    then obtain x where x: "resultMap (?cached2 @ fresh2) ?k = Some x" by blast
    from resultMap_Some [OF x] have xin: "x \<in> set (?cached2 @ fresh2)" and xid: "id' x = ?k"
      by simp_all
    have "x \<notin> set ?cached2"
    proof
      assume "x \<in> set ?cached2"
      then obtain k' d where kd: "(k', d) \<in> set ?sel2" and xd: "x = withFromCache d True"
        unfolding cacheRead_fst by force
      from keyed kd have "id' d = k'" by blast
      with xd xid have "k' = ?k" by (simp add: withFromCache_id)
      with kd have "?k \<in> fst ` set ?sel2" by force
      with notsel show False by simp
    qed
    with xin have xf: "x \<in> set fresh2" by simp
    have rs2n: "rs2 ! n = x" using nids x by (simp add: rs2')
    from xf fetchBatches_ok [OF f2] have "\<not> fromCache x" by blast
    with kept again f2 xf xid rs2n show ?thesis by blast
  qed
  from len nth other show ?thesis by blast
qed

lemma publicEnv_second_run:
  "resolveStatuses publicEnv
     [''AAAAAAAAAAA'' \<mapsto> \<lparr> data = publicData, cached_at = 100000000 \<rparr>]
     False Map.empty [''AAAAAAAAAAA'']
   = (Inr [withFromCache publicData True],
      [''AAAAAAAAAAA'' \<mapsto> \<lparr> data = publicData, cached_at = 100000000 \<rparr>])"
proof -
  have s: "cacheSelect [''AAAAAAAAAAA'' \<mapsto> \<lparr> data = publicData, cached_at = 100000000 \<rparr>]
             [''AAAAAAAAAAA''] (cacheExpiry publicEnv) = [(''AAAAAAAAAAA'', publicData)]"
    by (simp add: cacheSelect_def jsSet_def addAll_def setAdd_def cacheExpiry_def publicEnv_clock)
  have r: "cacheRead publicEnv
             [''AAAAAAAAAAA'' \<mapsto> \<lparr> data = publicData, cached_at = 100000000 \<rparr>]
             False [''AAAAAAAAAAA''] = ([withFromCache publicData True], [])"
    by (simp add: cacheRead_def s)
  show ?thesis
    by (simp add: resolveStatuses_unfold r fetchBatches_Nil sortedResults_def resultMap_def
          jsMap_def publicData_id cacheWrite_def)
qed

theorem second_resolution_serves_from_cache_witness:
  "resolveStatuses publicEnv Map.empty False Map.empty [''AAAAAAAAAAA'']
     = (Inr [withFromCache publicData False],
        [''AAAAAAAAAAA'' \<mapsto> \<lparr> data = publicData, cached_at = 100000000 \<rparr>])
   \<and> resolveStatuses publicEnv
        [''AAAAAAAAAAA'' \<mapsto> \<lparr> data = publicData, cached_at = 100000000 \<rparr>]
        False Map.empty [''AAAAAAAAAAA'']
     = (Inr [withFromCache publicData True],
        [''AAAAAAAAAAA'' \<mapsto> \<lparr> data = publicData, cached_at = 100000000 \<rparr>])
   \<and> withFromCache publicData True = (withFromCache publicData False)\<lparr>fromCache := True\<rparr>
   \<and> resolveStatuses unknownEnv Map.empty False Map.empty [''AAAAAAAAAAA'']
     = (Inr [withFromCache unknownData False], Map.empty)
   \<and> ''AAAAAAAAAAA'' \<in> set (snd (cacheRead unknownEnv Map.empty False [''AAAAAAAAAAA'']))
   \<and> \<not> fromCache (withFromCache unknownData False)"
proof -
  have st: "\<forall>i \<in> set [''AAAAAAAAAAA'']. \<forall>row. Map.empty i = Some row
              \<longrightarrow> cached_at row \<le> cacheExpiry e" for e
    by simp
  have la: "dateNowRead e \<le> dateNowRead e" for e :: env by simp
  have wi: "dateNowRead publicEnv - 86400000 < dateNowWrite publicEnv"
    by (simp add: publicEnv_clock)
  have wu: "dateNowRead unknownEnv - 86400000 < dateNowWrite unknownEnv"
    by (simp add: unknownEnv_clock)
  have di: "distinct [''AAAAAAAAAAA'']" by simp
  have un: "resolveStatuses unknownEnv Map.empty False Map.empty [''AAAAAAAAAAA'']
              = (Inr [withFromCache unknownData False], Map.empty)"
    by (simp add: unknownEnv_run)
  from second_resolution_serves_from_cache [OF publicEnv_run publicEnv_second_run di st la wi]
  have a: "withFromCache publicData True = (withFromCache publicData False)\<lparr>fromCache := True\<rparr>"
    by (simp add: publicData_status isDefinitive_def)
  from second_resolution_serves_from_cache [OF un un di st la wu]
  have b: "''AAAAAAAAAAA'' \<in> set (snd (cacheRead unknownEnv Map.empty False [''AAAAAAAAAAA'']))
           \<and> \<not> fromCache (withFromCache unknownData False)"
    by (simp add: unknownData_status isDefinitive_def)
  from a b un publicEnv_run publicEnv_second_run show ?thesis by simp
qed

text \<open>
  C5 as stated fails: the videos endpoint gives no \<^verbatim>\<open>privacyStatus\<close> for the id, the
  first request stores nothing, and the record of the second request, made at the same
  time, is not from the cache.
\<close>

theorem unknown_status_refetched_counterexample:
  "resolveStatuses unknownEnv Map.empty False Map.empty [''AAAAAAAAAAA'']
     = (Inr [withFromCache unknownData False], Map.empty)
   \<and> fst (resolveStatuses unknownEnv
             (snd (resolveStatuses unknownEnv Map.empty False Map.empty [''AAAAAAAAAAA'']))
             False Map.empty [''AAAAAAAAAAA''])
     = Inr [withFromCache unknownData False]
   \<and> fromCache (withFromCache unknownData False) = False"
  by (simp add: unknownEnv_run withFromCache_def video_data.defs)

end
